theory Spec2Isabelle
  imports Main "HOL-Library.Char_ord" "HOL-Library.List_Lexorder" "HOL-Library.Sublist"
begin

section \<open>Data model (Django models of EXPLAINER.md)\<close>

text \<open>
  Rows are identified by their integer primary keys; a foreign key holds the key of the
  row it points to. Timestamps (\<open>created_at\<close>, \<open>timezone.now()\<close>) are counted in
  microseconds, the resolution of a Python \<open>datetime\<close>.
\<close>

record post =
  post_id :: nat
  post_author :: nat

record comment =
  comment_id :: nat
  parent_id :: "nat option"
  comment_author :: nat
  path :: string
  depth :: nat

record post_like =
  pl_post :: nat
  pl_user :: nat
  pl_created_at :: int

record comment_like =
  cl_comment :: nat
  cl_user :: nat
  cl_created_at :: int

section \<open>Like ledger\<close>

text \<open>
  \<open>PostLike\<close> carries \<open>UniqueConstraint(fields=['post', 'user'])\<close>: the table never
  holds two rows with the same pair, and an insert that would break this raises
  \<open>IntegrityError\<close> and leaves the table as it was.
\<close>

datatype db_error = IntegrityError

definition same_pair :: "nat \<Rightarrow> nat \<Rightarrow> post_like \<Rightarrow> bool" where
  "same_pair p u l = (pl_post l = p \<and> pl_user l = u)"

definition unique_post_like :: "post_like list \<Rightarrow> bool" where
  "unique_post_like ledger = distinct (map (\<lambda>l. (pl_post l, pl_user l)) ledger)"

definition PostLike_create ::
  "post_like list \<Rightarrow> nat \<Rightarrow> nat \<Rightarrow> int \<Rightarrow> db_error + post_like list" where
  "PostLike_create ledger p u now =
     (if list_ex (same_pair p u) ledger then Inl IntegrityError
      else Inr (ledger @ [\<lparr>pl_post = p, pl_user = u, pl_created_at = now\<rparr>]))"

text \<open>
  The responses of the two views: \<open>{'status': 'liked'}\<close>, and
  \<open>{'error': 'Already liked'}\<close> with status 400, for \<open>like\<close>; the two outcomes the
  specification names for \<open>unlike\<close>.
\<close>

datatype response = Liked | AlreadyLiked | Unliked | NotLiked

text \<open>
  The \<open>like\<close> view, after \<open>get_object\<close> has fetched the post \<open>p\<close>: the insert runs inside
  \<open>transaction.atomic()\<close>, and \<open>IntegrityError\<close> is caught and answered with
  \<open>Already liked\<close>. The view returns its response and the table it leaves behind.
\<close>

definition like :: "post_like list \<Rightarrow> nat \<Rightarrow> nat \<Rightarrow> int \<Rightarrow> response \<times> post_like list" where
  "like ledger p u now =
     (case PostLike_create ledger p u now of
        Inr ledger' \<Rightarrow> (Liked, ledger')
      | Inl IntegrityError \<Rightarrow> (AlreadyLiked, ledger))"

text \<open>
  Modelled from the spec: the \<open>unlike\<close> view (backend/feed/views.py) is not among the
  sources; only its caller \<open>unlikePost\<close> in api.js is. Section 4.3 of the specification:
  \<open>unlike\<close> attempts to delete the matching record; if none exists, it reports
  \<open>NotLiked\<close> rather than silently succeeding.
\<close>

definition unlike :: "post_like list \<Rightarrow> nat \<Rightarrow> nat \<Rightarrow> response \<times> post_like list" where
  "unlike ledger p u =
     (if list_ex (same_pair p u) ledger
      then (Unliked, filter (\<lambda>l. \<not> same_pair p u l) ledger)
      else (NotLiked, ledger))"

section \<open>Karma aggregator (the leaderboard view)\<close>

definition timedelta_hours :: "int \<Rightarrow> int" where
  "timedelta_hours h = h * 3600 * 1000000"

definition cutoff :: "int \<Rightarrow> int" where
  "cutoff now = now - timedelta_hours 24"

text \<open>
  The joins \<open>post__author\<close> and \<open>comment__author\<close>: the author of the row the foreign
  key points to. A like whose subject is not in the table joins with nothing.
\<close>

definition post_author_of :: "post list \<Rightarrow> nat \<Rightarrow> nat option" where
  "post_author_of posts i = map_option post_author (find (\<lambda>p. post_id p = i) posts)"

definition comment_author_of :: "comment list \<Rightarrow> nat \<Rightarrow> nat option" where
  "comment_author_of comments i =
     map_option comment_author (find (\<lambda>c. comment_id c = i) comments)"

text \<open>
  \<open>.values(key).annotate(karma=Count('id'))\<close> groups the rows by the key and counts each
  group: one result row per distinct key. The query has no \<open>order_by\<close>, so the order of
  the result rows is the storage engine's; the model lists them by ascending key.
\<close>

definition group_count :: "nat list \<Rightarrow> (nat \<times> int) list" where
  "group_count keys = map (\<lambda>k. (k, int (count_list keys k))) (sort (remdups keys))"

definition post_karma :: "int \<Rightarrow> post list \<Rightarrow> post_like list \<Rightarrow> (nat \<times> int) list" where
  "post_karma now posts likes =
     map (\<lambda>(author, n). (author, n * 5))
       (group_count
          (List.map_filter (\<lambda>l. post_author_of posts (pl_post l))
             (filter (\<lambda>l. cutoff now \<le> pl_created_at l) likes)))"

definition comment_karma ::
  "int \<Rightarrow> comment list \<Rightarrow> comment_like list \<Rightarrow> (nat \<times> int) list" where
  "comment_karma now comments likes =
     group_count
       (List.map_filter (\<lambda>l. comment_author_of comments (cl_comment l))
          (filter (\<lambda>l. cutoff now \<le> cl_created_at l) likes))"

text \<open>
  A Python \<open>dict\<close> keeps its keys in insertion order, and assigning to a key that is
  present keeps the key's position: an association list with \<open>d.get(k, default)\<close> and
  \<open>d[k] = v\<close>.
\<close>

fun dict_get :: "('k \<times> 'v) list \<Rightarrow> 'k \<Rightarrow> 'v \<Rightarrow> 'v" where
  "dict_get [] k dflt = dflt"
| "dict_get ((k', v) # d) k dflt = (if k' = k then v else dict_get d k dflt)"

fun dict_set :: "('k \<times> 'v) list \<Rightarrow> 'k \<Rightarrow> 'v \<Rightarrow> ('k \<times> 'v) list" where
  "dict_set [] k v = [(k, v)]"
| "dict_set ((k', v') # d) k v = (if k' = k then (k, v) # d else (k', v') # dict_set d k v)"

text \<open>
  The body of both loops:
  \<open>karma_by_user[user_id] = karma_by_user.get(user_id, 0) + item['karma']\<close>.
\<close>

definition add_karma :: "(nat \<times> int) list \<Rightarrow> nat \<times> int \<Rightarrow> (nat \<times> int) list" where
  "add_karma d item = dict_set d (fst item) (dict_get d (fst item) 0 + snd item)"

definition karma_by_user ::
  "int \<Rightarrow> post list \<Rightarrow> comment list \<Rightarrow> post_like list \<Rightarrow> comment_like list \<Rightarrow>
   (nat \<times> int) list" where
  "karma_by_user now posts comments pls cls =
     foldl add_karma (foldl add_karma [] (post_karma now posts pls))
       (comment_karma now comments cls)"

text \<open>
  \<open>sorted(items, key=..., reverse=True)\<close>: a stable sort in descending key order.
  CPython reverses the list, sorts it stably in ascending order and reverses it again,
  so items with equal keys keep the order they came in.
\<close>

definition py_sorted_reverse :: "('a \<Rightarrow> 'b::linorder) \<Rightarrow> 'a list \<Rightarrow> 'a list" where
  "py_sorted_reverse key xs = rev (sort_key key (rev xs))"

text \<open>
  \<open>sorted_users\<close> of the view:
  \<open>sorted(karma_by_user.items(), key=lambda x: x[1], reverse=True)[:5]\<close>.
\<close>

definition leaderboard ::
  "int \<Rightarrow> post list \<Rightarrow> comment list \<Rightarrow> post_like list \<Rightarrow> comment_like list \<Rightarrow>
   (nat \<times> int) list" where
  "leaderboard now posts comments pls cls =
     take 5 (py_sorted_reverse snd (karma_by_user now posts comments pls cls))"

text \<open>
  The ranking the specification asks for (section 4.4): strictly descending by karma,
  ties broken by ascending user id.
\<close>

definition ranked_ties_by_id :: "(nat \<times> int) list \<Rightarrow> bool" where
  "ranked_ties_by_id xs =
     sorted_wrt (\<lambda>a b. snd b < snd a \<or> (snd a = snd b \<and> fst a < fst b)) xs"

text \<open>
  The karma the specification defines (section 4.4) with the view's window and weights:
  \<open>totalKarma[u] = postKarma[u] + commentKarma[u]\<close>, each a count of the like rows
  inside the window whose subject's author is \<open>u\<close>, times 5 for posts and 1 for comments.
\<close>

definition total_karma ::
  "int \<Rightarrow> post list \<Rightarrow> comment list \<Rightarrow> post_like list \<Rightarrow> comment_like list \<Rightarrow> nat \<Rightarrow> int"
  where
  "total_karma now posts comments pls cls u =
     int (length (filter (\<lambda>l. now - timedelta_hours 24 \<le> pl_created_at l \<and>
            post_author_of posts (pl_post l) = Some u) pls)) * 5 +
     int (length (filter (\<lambda>l. now - timedelta_hours 24 \<le> cl_created_at l \<and>
            comment_author_of comments (cl_comment l) = Some u) cls)) * 1"

subsection \<open>Example data\<close>

text \<open>
  The karma scenario of the specification: user 1 wrote post 10 and comment 20; the post
  has three likes and the comment two inside the window (one of them exactly at the
  cutoff), and one more like on the post was recorded one second before the cutoff.
\<close>

definition scenario_now :: int where
  "scenario_now = 200000000000"

definition scenario_posts :: "post list" where
  "scenario_posts = [\<lparr>post_id = 10, post_author = 1\<rparr>]"

definition scenario_comments :: "comment list" where
  "scenario_comments =
     [\<lparr>comment_id = 20, parent_id = None, comment_author = 1, path = ''0001'', depth = 0\<rparr>]"

definition scenario_post_likes :: "post_like list" where
  "scenario_post_likes =
     [\<lparr>pl_post = 10, pl_user = 2, pl_created_at = 199999000000\<rparr>,
      \<lparr>pl_post = 10, pl_user = 3, pl_created_at = 113600000000\<rparr>,
      \<lparr>pl_post = 10, pl_user = 4, pl_created_at = 200000000000\<rparr>,
      \<lparr>pl_post = 10, pl_user = 5, pl_created_at = 113599000000\<rparr>]"

definition scenario_comment_likes :: "comment_like list" where
  "scenario_comment_likes =
     [\<lparr>cl_comment = 20, cl_user = 2, cl_created_at = 150000000000\<rparr>,
      \<lparr>cl_comment = 20, cl_user = 3, cl_created_at = 160000000000\<rparr>]"

text \<open>
  A tie: user 3 wrote post 10, liked once; user 1 wrote comment 20, liked five times.
  Both earn karma 5 inside the window.
\<close>

definition tie_posts :: "post list" where
  "tie_posts = [\<lparr>post_id = 10, post_author = 3\<rparr>]"

definition tie_comments :: "comment list" where
  "tie_comments =
     [\<lparr>comment_id = 20, parent_id = None, comment_author = 1, path = ''0001'', depth = 0\<rparr>]"

definition tie_post_likes :: "post_like list" where
  "tie_post_likes = [\<lparr>pl_post = 10, pl_user = 4, pl_created_at = 199999000000\<rparr>]"

definition tie_comment_likes :: "comment_like list" where
  "tie_comment_likes =
     [\<lparr>cl_comment = 20, cl_user = 4, cl_created_at = 199999000000\<rparr>,
      \<lparr>cl_comment = 20, cl_user = 5, cl_created_at = 199999000000\<rparr>,
      \<lparr>cl_comment = 20, cl_user = 6, cl_created_at = 199999000000\<rparr>,
      \<lparr>cl_comment = 20, cl_user = 7, cl_created_at = 199999000000\<rparr>,
      \<lparr>cl_comment = 20, cl_user = 8, cl_created_at = 199999000000\<rparr>]"

text \<open>
  Eight authors: user \<open>u\<close> wrote post \<open>100 + u\<close> and comment \<open>200 + u\<close>. Inside the window
  the posts of users 8, 2, 4 and 6 have ten, two, one and one likes, and the comments of
  users 3, 1, 4, 5 and 7 have five, four, one, three and one.
\<close>

definition crowd_posts :: "post list" where
  "crowd_posts = map (\<lambda>u. \<lparr>post_id = 100 + u, post_author = u\<rparr>) [1, 2, 3, 4, 5, 6, 7, 8]"

definition crowd_comments :: "comment list" where
  "crowd_comments =
     map (\<lambda>u. \<lparr>comment_id = 200 + u, parent_id = None, comment_author = u,
               path = ''0001'', depth = 0\<rparr>) [1, 2, 3, 4, 5, 6, 7, 8]"

definition crowd_post_likes :: "post_like list" where
  "crowd_post_likes =
     map (\<lambda>(p, u). \<lparr>pl_post = p, pl_user = u, pl_created_at = 199999000000\<rparr>)
       [(108, 11), (108, 12), (108, 13), (108, 14), (108, 15), (108, 16), (108, 17),
        (108, 18), (108, 19), (108, 20), (102, 11), (102, 12), (104, 11), (106, 11)]"

definition crowd_comment_likes :: "comment_like list" where
  "crowd_comment_likes =
     map (\<lambda>(c, u). \<lparr>cl_comment = c, cl_user = u, cl_created_at = 199999000000\<rparr>)
       [(203, 11), (203, 12), (203, 13), (203, 14), (203, 15), (201, 11), (201, 12),
        (201, 13), (201, 14), (204, 11), (205, 11), (205, 12), (205, 13), (207, 11)]"

definition example_ledger :: "post_like list" where
  "example_ledger = [\<lparr>pl_post = 10, pl_user = 2, pl_created_at = 100\<rparr>]"

section \<open>Tree reconstruction (PostDetailSerializer.get_comments)\<close>

text \<open>
  The loop allocates one \<open>comment_data\<close> object per comment and stores a reference to it
  in \<open>comment_dict\<close> and in one list: \<open>root_comments\<close> or the \<open>replies\<close> of its parent's
  object. An append to \<open>replies\<close> is seen through every reference to the parent, so the
  objects live in a store: \<open>heap\<close> holds them in allocation order, an object's address is
  its position, and \<open>comment_dict\<close>, \<open>root_comments\<close> and every \<open>replies\<close> list hold
  addresses. A \<open>comment_data\<close> is the serialised comment with its \<open>replies\<close>.
\<close>

type_synonym comment_data = "comment \<times> nat list"

record build_state =
  heap :: "comment_data list"
  comment_dict :: "nat \<Rightarrow> nat option"
  root_comments :: "nat list"

datatype py_error = KeyError nat | CircularReference

text \<open>
  One pass of the loop body. \<open>comment_dict[comment.parent_id]\<close> raises \<open>KeyError\<close> when
  the key is missing; the lookup comes after \<open>comment_dict[comment.id] = comment_data\<close>.
\<close>

definition loop_body :: "build_state \<Rightarrow> comment \<Rightarrow> py_error + build_state" where
  "loop_body s c =
     (let a = length (heap s);
          s1 = s\<lparr>heap := heap s @ [(c, [])],
                 comment_dict := (comment_dict s)(comment_id c \<mapsto> a)\<rparr>
      in case parent_id c of
           None \<Rightarrow> Inr (s1\<lparr>root_comments := root_comments s1 @ [a]\<rparr>)
         | Some p \<Rightarrow>
             (case comment_dict s1 p of
                None \<Rightarrow> Inl (KeyError p)
              | Some pa \<Rightarrow>
                  Inr (s1\<lparr>heap := (heap s1)
                         [pa := (fst (heap s1 ! pa), snd (heap s1 ! pa) @ [a])]\<rparr>)))"

fun loop :: "build_state \<Rightarrow> comment list \<Rightarrow> py_error + build_state" where
  "loop s [] = Inr s"
| "loop s (c # cs) = (case loop_body s c of Inl e \<Rightarrow> Inl e | Inr s' \<Rightarrow> loop s' cs)"

definition initial_state :: build_state where
  "initial_state = \<lparr>heap = [], comment_dict = Map.empty, root_comments = []\<rparr>"

text \<open>
  The value returned is \<open>root_comments\<close>: a list of references into the store. As the
  nested data of the response it is a forest, read from the store by following the
  \<open>replies\<close> references. The reading is bounded by the number of objects plus one, which
  every path through distinct objects respects; a graph with a cycle has no reading as
  nested data.
\<close>

datatype comment_node = Node (node_comment: comment) (node_replies: "comment_node list")

fun readout :: "nat \<Rightarrow> comment_data list \<Rightarrow> nat \<Rightarrow> comment_node option" where
  "readout 0 h a = None"
| "readout (Suc fuel) h a =
     (if a < length h
      then map_option (Node (fst (h ! a))) (those (map (readout fuel h) (snd (h ! a))))
      else None)"

definition get_comments :: "comment list \<Rightarrow> py_error + comment_node list" where
  "get_comments comments =
     (case loop initial_state comments of
        Inl e \<Rightarrow> Inl e
      | Inr s \<Rightarrow>
          (case those (map (readout (Suc (length (heap s))) (heap s)) (root_comments s)) of
             None \<Rightarrow> Inl CircularReference
           | Some forest \<Rightarrow> Inr forest))"

text \<open>Pre-order traversal of a tree and of a forest.\<close>

fun flatten :: "comment_node \<Rightarrow> comment list" where
  "flatten (Node c replies) = c # concat (map flatten replies)"

definition flatten_forest :: "comment_node list \<Rightarrow> comment list" where
  "flatten_forest forest = concat (map flatten forest)"

text \<open>
  The stored paths (EXPLAINER.md, Path Format Examples): a root comment's path is one
  segment of decimal digits, as in \<open>0001\<close>; a reply's path is its parent's path, a dot,
  and one more segment, as in \<open>0001.0001\<close>.
\<close>

definition is_segment :: "string \<Rightarrow> bool" where
  "is_segment seg = (seg \<noteq> [] \<and> (\<forall>ch\<in>set seg. ch \<in> set ''0123456789''))"

definition is_child_path :: "string \<Rightarrow> string \<Rightarrow> bool" where
  "is_child_path parent_path p =
     (take (length parent_path + 1) p = parent_path @ ''.'' \<and>
      is_segment (drop (length parent_path + 1) p))"

definition wf_paths :: "comment list \<Rightarrow> bool" where
  "wf_paths comments =
     (\<forall>c\<in>set comments.
        case parent_id c of
          None \<Rightarrow> is_segment (path c)
        | Some p \<Rightarrow> (\<exists>q\<in>set comments. comment_id q = p \<and> is_child_path (path q) (path c)))"

subsection \<open>The store the loop builds\<close>

text \<open>
  The block of a path \<open>p\<close>: \<open>p\<close> itself and every path that continues \<open>p\<close> with a dot,
  the paths of the comment at \<open>p\<close> and of everything below it.
\<close>

definition in_block :: "string \<Rightarrow> string \<Rightarrow> bool" where
  "in_block p x = (x = p \<or> prefix (p @ ''.'') x)"

text \<open>
  What the loop leaves in the store when every lookup succeeds, written over the
  positions of the input: the object of the comment at position \<open>a\<close> holds the
  positions of the comments that name it as parent, in input order; the root list holds
  the positions of the comments without a parent; \<open>comment_dict\<close> maps every id to the
  position of its comment.
\<close>

definition kids :: "comment list \<Rightarrow> nat \<Rightarrow> nat list" where
  "kids cs a = filter (\<lambda>b. parent_id (cs ! b) = Some (comment_id (cs ! a))) [0..<length cs]"

definition roots :: "comment list \<Rightarrow> nat list" where
  "roots cs = filter (\<lambda>b. parent_id (cs ! b) = None) [0..<length cs]"

definition built_heap :: "comment list \<Rightarrow> comment_data list" where
  "built_heap cs = map (\<lambda>a. (cs ! a, kids cs a)) [0..<length cs]"

definition built :: "build_state \<Rightarrow> comment list \<Rightarrow> bool" where
  "built s cs =
     (heap s = built_heap cs \<and> root_comments s = roots cs \<and>
      (\<forall>a<length cs. comment_dict s (comment_id (cs ! a)) = Some a))"

definition parents_before :: "comment list \<Rightarrow> bool" where
  "parents_before cs =
     (\<forall>b<length cs. \<forall>p. parent_id (cs ! b) = Some p \<longrightarrow> (\<exists>a<b. comment_id (cs ! a) = p))"

definition mk_comment :: "nat \<Rightarrow> nat option \<Rightarrow> string \<Rightarrow> nat \<Rightarrow> comment" where
  "mk_comment i p s d =
     \<lparr>comment_id = i, parent_id = p, comment_author = 1, path = s, depth = d\<rparr>"

text \<open>
  A thread of five comments in path order, created in the order of their ids: two
  roots, two replies to the first root, and a reply to its first reply.
\<close>

definition example_comments :: "comment list" where
  "example_comments =
     [mk_comment 1 None ''0001'' 0,
      mk_comment 3 (Some 1) ''0001.0001'' 1,
      mk_comment 5 (Some 3) ''0001.0001.0001'' 2,
      mk_comment 4 (Some 1) ''0001.0002'' 1,
      mk_comment 2 None ''0002'' 0]"

text \<open>A reply whose parent, comment 9, is not among the comments.\<close>

definition orphan_comments :: "comment list" where
  "orphan_comments =
     [mk_comment 1 None ''0001'' 0,
      mk_comment 3 (Some 9) ''0009.0001'' 1]"

section \<open>Stored paths and their order\<close>






section \<open>Path allocator\<close>

text \<open>
  Modelled from the spec: the code that allocates a new comment's path and depth (the
  \<open>save\<close> method of \<open>Comment\<close> in backend/feed/models.py) is not among the sources.
  Section 4.1 of the specification: \<open>allocate(parentPath, existingSiblingMaxSegment)\<close>
  returns \<open>[nextRootSegment]\<close> when \<open>parentPath\<close> is absent and
  \<open>parentPath ++ [nextChildSegment]\<close> otherwise, the next segment being one greater
  than the maximum already used (0 if none): the maximum first segment of the post's
  paths for a root, the maximum last segment among the direct children of the parent
  for a reply. Depth is \<open>len(path) - 1\<close>. Paths are sequences of integer segments, as in
  the specification.
\<close>

definition allocate :: "nat list option \<Rightarrow> nat \<Rightarrow> nat list" where
  "allocate parentPath existingSiblingMaxSegment =
     (case parentPath of
        None \<Rightarrow> [existingSiblingMaxSegment + 1]
      | Some pp \<Rightarrow> pp @ [existingSiblingMaxSegment + 1])"

definition max_segment :: "nat list \<Rightarrow> nat" where
  "max_segment segs = foldr max segs 0"

definition sibling_segments :: "nat list list \<Rightarrow> nat list option \<Rightarrow> nat list" where
  "sibling_segments existing parentPath =
     (case parentPath of
        None \<Rightarrow> map hd (filter (\<lambda>p. p \<noteq> []) existing)
      | Some pp \<Rightarrow> map last (filter (\<lambda>p. p \<noteq> [] \<and> butlast p = pp) existing))"

text \<open>
  \<open>createComment\<close>, as far as the path and the depth of the new comment go: \<open>existing\<close>
  are the paths of the comments the post already has.
\<close>

definition createComment :: "nat list list \<Rightarrow> nat list option \<Rightarrow> nat list \<times> nat" where
  "createComment existing parentPath =
     (let newPath = allocate parentPath (max_segment (sibling_segments existing parentPath))
      in (newPath, length newPath - 1))"

definition example_paths :: "nat list list" where
  "example_paths = [[1], [1, 1], [1, 1, 1], [1, 4], [2]]"

section \<open>Frontend: like toggle and reply control (Post.jsx, Comment.jsx)\<close>

text \<open>
  \<open>likeCount\<close> is a JavaScript number, an IEEE 754 double, holding an integer count.
  Doubles are spaced 1 apart below \<open>2^53\<close> and twice as far with every further bit; the
  sum \<open>c + 1\<close> or \<open>c - 1\<close> is the exact result rounded to the nearest double, a tie going
  to the one with the even significand. The model keeps the count as the integer the
  double holds.
\<close>

fun bit_length :: "nat \<Rightarrow> nat" where
  "bit_length n = (if n = 0 then 0 else Suc (bit_length (n div 2)))"

declare bit_length.simps [simp del]

definition double_spacing :: "int \<Rightarrow> int" where
  "double_spacing v = (if \<bar>v\<bar> < 2 ^ 53 then 1 else 2 ^ (bit_length (nat \<bar>v\<bar>) - 53))"

definition to_double :: "int \<Rightarrow> int" where
  "to_double v =
     (let u = double_spacing v; q = v div u; r = v mod u
      in if 2 * r < u then q * u
         else if u < 2 * r then (q + 1) * u
         else if even q then q * u else (q + 1) * u)"

text \<open>
  The two React components keep the pair \<open>isLiked\<close>, \<open>likeCount\<close> in component state.
  \<open>handleLike\<close> is a closure of one render: \<open>user\<close> and \<open>isLiked\<close> are the values that
  render saw, and nothing but \<open>disabled={!user}\<close> keeps the button from being pressed
  again while a call is in flight. The handler awaits one call of the API service and
  only then runs the setters; a rejected promise jumps to the \<open>catch\<close> block, which only
  logs. \<open>setLikeCount(c => c + 1)\<close> is a functional update: it works on the count the
  state holds when the call has resolved. \<open>setIsLiked(!isLiked)\<close> stores the negation of
  the flag the render saw. So the model takes the render's flag \<open>rendered\<close> and the
  state \<open>s\<close> the setters find; the answer of the server is a parameter, a function from
  the call made to its outcome.
\<close>

datatype api_call = LikePost nat | UnlikePost nat | LikeComment nat | UnlikeComment nat

datatype outcome = Resolved | Rejected

record like_state =
  isLiked :: bool
  likeCount :: int

text \<open>
  \<open>Post.handleLike\<close>: \<open>if (!user) return;\<close> then \<open>unlikePost\<close> and \<open>c - 1\<close> when
  \<open>isLiked\<close>, \<open>likePost\<close> and \<open>c + 1\<close> otherwise, then \<open>setIsLiked(!isLiked)\<close>.
\<close>

definition Post_handleLike ::
  "nat option \<Rightarrow> (api_call \<Rightarrow> outcome) \<Rightarrow> nat \<Rightarrow> bool \<Rightarrow> like_state \<Rightarrow> like_state" where
  "Post_handleLike user api pid rendered s =
     (case user of
        None \<Rightarrow> s
      | Some u \<Rightarrow>
          (if rendered then
             (case api (UnlikePost pid) of
                Rejected \<Rightarrow> s
              | Resolved \<Rightarrow>
                  s\<lparr>likeCount := to_double (likeCount s - 1), isLiked := \<not> rendered\<rparr>)
           else
             (case api (LikePost pid) of
                Rejected \<Rightarrow> s
              | Resolved \<Rightarrow>
                  s\<lparr>likeCount := to_double (likeCount s + 1), isLiked := \<not> rendered\<rparr>)))"

text \<open>\<open>CommentItem.handleLike\<close>: the same code over \<open>unlikeComment\<close> and \<open>likeComment\<close>.\<close>

definition CommentItem_handleLike ::
  "nat option \<Rightarrow> (api_call \<Rightarrow> outcome) \<Rightarrow> nat \<Rightarrow> bool \<Rightarrow> like_state \<Rightarrow> like_state" where
  "CommentItem_handleLike user api cid rendered s =
     (case user of
        None \<Rightarrow> s
      | Some u \<Rightarrow>
          (if rendered then
             (case api (UnlikeComment cid) of
                Rejected \<Rightarrow> s
              | Resolved \<Rightarrow>
                  s\<lparr>likeCount := to_double (likeCount s - 1), isLiked := \<not> rendered\<rparr>)
           else
             (case api (LikeComment cid) of
                Rejected \<Rightarrow> s
              | Resolved \<Rightarrow>
                  s\<lparr>likeCount := to_double (likeCount s + 1), isLiked := \<not> rendered\<rparr>)))"

text \<open>
  Two presses of the like button of post 7 in one render, on a post not yet liked with
  three likes: both calls resolve, and the second finds the state the first left.
\<close>

definition pressed_once :: like_state where
  "pressed_once =
     Post_handleLike (Some 1) (\<lambda>c. Resolved) 7 False \<lparr>isLiked = False, likeCount = 3\<rparr>"

definition pressed_twice :: like_state where
  "pressed_twice = Post_handleLike (Some 1) (\<lambda>c. Resolved) 7 False pressed_once"

text \<open>
  The comment tree as the frontend receives it: each comment object carries its
  \<open>replies\<close> array. \<open>CommentItem\<close> renders the Reply button under
  \<open>user && depth < 5\<close> and renders every reply as a \<open>CommentItem\<close> with
  \<open>depth + 1\<close>; \<open>CommentList\<close> starts every top-level comment at \<open>depth = 0\<close>.
\<close>

datatype 'a reply_tree = Replies 'a "'a reply_tree list"

datatype 'a rendered =
  Rendered (r_comment: 'a) (r_depth: nat) (r_reply_button: bool) (r_nested: "'a rendered list")

fun CommentItem :: "nat option \<Rightarrow> nat \<Rightarrow> 'a reply_tree \<Rightarrow> 'a rendered" where
  "CommentItem user dep (Replies c replies) =
     Rendered c dep (user \<noteq> None \<and> dep < 5)
       (map (CommentItem user (dep + 1)) replies)"

definition CommentList :: "nat option \<Rightarrow> 'a reply_tree list \<Rightarrow> 'a rendered list" where
  "CommentList user comments = map (CommentItem user 0) comments"

text \<open>
  Every rendered item of a rendered subtree, paired with its nesting level counted from
  the level \<open>lvl\<close> of the root of the subtree.
\<close>

fun items_from :: "nat \<Rightarrow> 'a rendered \<Rightarrow> (nat \<times> 'a rendered) list" where
  "items_from lvl (Rendered c d b nested) =
     (lvl, Rendered c d b nested) # concat (map (items_from (Suc lvl)) nested)"

definition all_items :: "'a rendered list \<Rightarrow> (nat \<times> 'a rendered) list" where
  "all_items rs = concat (map (items_from 0) rs)"

definition example_thread :: "nat reply_tree list" where
  "example_thread =
     [Replies 1 [Replies 2 [Replies 3 [Replies 4 [Replies 5 [Replies 6 [Replies 7 []]]]]]],
      Replies 8 []]"

section \<open>Verified properties\<close>

subsection \<open>Frontend\<close>

lemma bit_length_power2: "bit_length (2 ^ n) = Suc n"
proof (induction n)
  case 0
  have "bit_length (Suc 0) = Suc (bit_length 0)"
    by (subst bit_length.simps) simp
  also have "bit_length 0 = 0" by (subst bit_length.simps) simp
  finally show ?case by simp
next
  case (Suc n)
  have "bit_length (2 ^ Suc n) = Suc (bit_length (2 ^ Suc n div 2))"
    by (subst bit_length.simps) simp
  with Suc show ?case by simp
qed

lemma double_spacing_small: "\<bar>v\<bar> < 2 ^ 53 \<Longrightarrow> double_spacing v = 1"
  by (simp add: double_spacing_def)

lemma double_spacing_2_53: "\<bar>v\<bar> = 2 ^ 53 \<Longrightarrow> double_spacing v = 2"
proof -
  assume v: "\<bar>v\<bar> = 2 ^ 53"
  have "nat ((2::int) ^ 53) = 2 ^ 53" by simp
  then have "bit_length (nat \<bar>v\<bar>) = 54"
    using bit_length_power2 [of 53] v by simp
  with v show ?thesis by (simp add: double_spacing_def)
qed

lemma to_double_exact: "\<bar>v\<bar> \<le> 2 ^ 53 \<Longrightarrow> to_double v = v"
proof -
  assume le: "\<bar>v\<bar> \<le> 2 ^ 53"
  show ?thesis
  proof (cases "\<bar>v\<bar> < 2 ^ 53")
    case True
    then show ?thesis by (simp add: to_double_def double_spacing_small)
  next
    case False
    with le have v: "\<bar>v\<bar> = 2 ^ 53" by simp
    then have "v = 2 ^ 53 \<or> v = - (2 ^ 53)" by linarith
    then have m: "v mod 2 = 0" by auto
    then have "v div 2 * 2 = v" by presburger
    with m show ?thesis
      by (simp add: to_double_def double_spacing_2_53 [OF v] Let_def)
  qed
qed

lemma to_double_step:
  "\<bar>c\<bar> < 2 ^ 53 \<Longrightarrow> to_double (c + 1) = c + 1 \<and> to_double (c - 1) = c - 1"
  by (simp add: to_double_exact)


lemma to_double_2_53: "to_double (2 ^ 53 + 1) = 2 ^ 53"
proof -
  have "bit_length (nat \<bar>2 ^ 53 + 1 :: int\<bar>) = Suc (bit_length (2 ^ 52))"
    by (subst bit_length.simps) simp
  with bit_length_power2 [of 52] have "bit_length (nat \<bar>2 ^ 53 + 1 :: int\<bar>) = 54"
    by simp
  then have "double_spacing (2 ^ 53 + 1) = 2"
    by (simp add: double_spacing_def)
  then show ?thesis by (simp add: to_double_def Let_def)
qed

text \<open>
  Claim C9, as the code has it. In the like toggle of a post and of a comment, with a
  user logged in: when the like or unlike call rejects, the displayed count and the
  liked flag are both unchanged. When it resolves, and the flag the handler's render
  saw is still the flag of the state (no other toggle of the component has resolved in
  between), and the count is an integer below \<open>2^53\<close> in magnitude, the flag flips
  and the count moves by exactly one, down for an unlike and up for a like.
\<close>

theorem handleLike_toggle:
  fixes api :: "api_call \<Rightarrow> outcome"
  shows
    "(api (if rendered then UnlikePost i else LikePost i) = Rejected \<longrightarrow>
        Post_handleLike (Some u) api i rendered s = s) \<and>
     (api (if rendered then UnlikePost i else LikePost i) = Resolved \<and>
      rendered = isLiked s \<and> \<bar>likeCount s\<bar> < 2 ^ 53 \<longrightarrow>
        isLiked (Post_handleLike (Some u) api i rendered s) = (\<not> isLiked s) \<and>
        likeCount (Post_handleLike (Some u) api i rendered s) =
          (if isLiked s then likeCount s - 1 else likeCount s + 1)) \<and>
     (api (if rendered then UnlikeComment i else LikeComment i) = Rejected \<longrightarrow>
        CommentItem_handleLike (Some u) api i rendered s = s) \<and>
     (api (if rendered then UnlikeComment i else LikeComment i) = Resolved \<and>
      rendered = isLiked s \<and> \<bar>likeCount s\<bar> < 2 ^ 53 \<longrightarrow>
        isLiked (CommentItem_handleLike (Some u) api i rendered s) = (\<not> isLiked s) \<and>
        likeCount (CommentItem_handleLike (Some u) api i rendered s) =
          (if isLiked s then likeCount s - 1 else likeCount s + 1))"
  using to_double_step [of "likeCount s"]
  by (cases rendered; simp add: Post_handleLike_def CommentItem_handleLike_def)

lemma pressed_once_eval: "pressed_once = \<lparr>isLiked = True, likeCount = 4\<rparr>"
  using to_double_step [of 3] by (simp add: pressed_once_def Post_handleLike_def)

lemma pressed_twice_eval: "pressed_twice = \<lparr>isLiked = True, likeCount = 5\<rparr>"
  using to_double_step [of 4]
  by (simp add: pressed_twice_def pressed_once_eval Post_handleLike_def)

text \<open>
  Two presses in one render, both resolved: the second call moves the count from 4 to 5
  and leaves the flag as the first call set it. And a like on a count of \<open>2^53\<close>
  resolves without moving the count.
\<close>

theorem handleLike_overlap_counterexample:
  "isLiked pressed_twice = isLiked pressed_once \<and>
   likeCount pressed_once = 4 \<and> likeCount pressed_twice = 5 \<and>
   likeCount (Post_handleLike (Some 1) (\<lambda>c. Resolved) 7 False
     \<lparr>isLiked = False, likeCount = 2 ^ 53\<rparr>) = 2 ^ 53"
  using to_double_2_53
  by (simp add: pressed_once_eval pressed_twice_eval Post_handleLike_def)

theorem handleLike_toggle_witness:
  "Post_handleLike (Some 1) (\<lambda>c. Rejected) 7 False \<lparr>isLiked = False, likeCount = 3\<rparr> =
     \<lparr>isLiked = False, likeCount = 3\<rparr> \<and>
   likeCount (Post_handleLike (Some 1) (\<lambda>c. Resolved) 7 False
     \<lparr>isLiked = False, likeCount = 3\<rparr>) = 4 \<and>
   isLiked (Post_handleLike (Some 1) (\<lambda>c. Resolved) 7 False
     \<lparr>isLiked = False, likeCount = 3\<rparr>) \<and>
   CommentItem_handleLike (Some 1) (\<lambda>c. Rejected) 9 True \<lparr>isLiked = True, likeCount = 3\<rparr> =
     \<lparr>isLiked = True, likeCount = 3\<rparr> \<and>
   likeCount (CommentItem_handleLike (Some 1) (\<lambda>c. Resolved) 9 True
     \<lparr>isLiked = True, likeCount = 3\<rparr>) = 2 \<and>
   \<not> isLiked (CommentItem_handleLike (Some 1) (\<lambda>c. Resolved) 9 True
     \<lparr>isLiked = True, likeCount = 3\<rparr>)"
  using handleLike_toggle [of "\<lambda>c. Rejected" False 7 1 "\<lparr>isLiked = False, likeCount = 3\<rparr>"]
    handleLike_toggle [of "\<lambda>c. Resolved" False 7 1 "\<lparr>isLiked = False, likeCount = 3\<rparr>"]
    handleLike_toggle [of "\<lambda>c. Rejected" True 9 1 "\<lparr>isLiked = True, likeCount = 3\<rparr>"]
    handleLike_toggle [of "\<lambda>c. Resolved" True 9 1 "\<lparr>isLiked = True, likeCount = 3\<rparr>"]
  by simp

lemma items_from_CommentItem:
  "(lvl, r) \<in> set (items_from d (CommentItem user d t)) \<Longrightarrow>
   r_depth r = lvl \<and> r_reply_button r = (user \<noteq> None \<and> lvl < 5)"
proof (induction t arbitrary: d)
  case (Replies c ts)
  then show ?case by (fastforce simp: image_iff)
qed

text \<open>
  Claim C10. Every comment item rendered by \<open>CommentList\<close> carries a render depth equal
  to its nesting level (top-level items 0, each nested level one more), and shows the
  Reply control exactly when a user is logged in and that depth is below 5; so no item
  at depth 5 or deeper offers a reply.
\<close>

theorem reply_button_depth_guard:
  "\<forall>(lvl, r) \<in> set (all_items (CommentList user comments)).
     r_depth r = lvl \<and> r_reply_button r = (user \<noteq> None \<and> lvl < 5) \<and>
     (5 \<le> lvl \<longrightarrow> \<not> r_reply_button r)"
  by (auto simp: all_items_def CommentList_def dest: items_from_CommentItem)

theorem reply_button_depth_guard_witness:
  "map (\<lambda>(lvl, r). (lvl, r_comment r, r_depth r, r_reply_button r))
     (all_items (CommentList (Some 1) example_thread)) =
   [(0, 1, 0, True), (1, 2, 1, True), (2, 3, 2, True), (3, 4, 3, True), (4, 5, 4, True),
    (5, 6, 5, False), (6, 7, 6, False), (0, 8, 0, True)]"
  using reply_button_depth_guard [of "Some 1" example_thread]
  by (simp add: all_items_def CommentList_def example_thread_def)

subsection \<open>The dictionary and the grouped counts\<close>


lemma dict_get_dict_set:
  "dict_get (dict_set d k v) k' dflt = (if k' = k then v else dict_get d k' dflt)"
  by (induction d) auto

lemma dict_set_keys: "fst ` set (dict_set d k v) = insert k (fst ` set d)"
proof (induction d)
  case Nil
  then show ?case by simp
next
  case (Cons p d)
  then show ?case by (cases p) (simp add: insert_commute)
qed

lemma dict_set_distinct: "distinct (map fst d) \<Longrightarrow> distinct (map fst (dict_set d k v))"
  by (induction d) (auto simp: dict_set_keys)

lemma dict_get_member:
  "distinct (map fst d) \<Longrightarrow> (u, k) \<in> set d \<longleftrightarrow> u \<in> fst ` set d \<and> dict_get d u dflt = k"
  by (induction d) (auto simp: image_iff)

lemma dict_get_absent: "u \<notin> fst ` set d \<Longrightarrow> dict_get d u dflt = dflt"
  by (induction d) auto

lemma add_karma_get:
  "dict_get (add_karma d it) u 0 = dict_get d u 0 + (if fst it = u then snd it else 0)"
  by (auto simp: add_karma_def dict_get_dict_set)

lemma foldl_add_karma_get:
  "dict_get (foldl add_karma d its) u 0 =
     dict_get d u 0 + sum_list (map snd (filter (\<lambda>it. fst it = u) its))"
  by (induction its arbitrary: d) (auto simp: add_karma_get)

lemma foldl_add_karma_keys:
  "fst ` set (foldl add_karma d its) = fst ` set d \<union> fst ` set its"
  by (induction its arbitrary: d) (auto simp: add_karma_def dict_set_keys)

lemma foldl_add_karma_distinct:
  "distinct (map fst d) \<Longrightarrow> distinct (map fst (foldl add_karma d its))"
  by (induction its arbitrary: d) (auto simp: add_karma_def dict_set_distinct)

lemma filter_key_tabulate:
  "distinct ks \<Longrightarrow>
   filter (\<lambda>it. fst it = u) (map (\<lambda>k. (k, f k)) ks) = (if u \<in> set ks then [(u, f u)] else [])"
  by (induction ks) auto

lemma group_count_row:
  "filter (\<lambda>it. fst it = u) (group_count ks) =
     (if u \<in> set ks then [(u, int (count_list ks u))] else [])"
  unfolding group_count_def by (subst filter_key_tabulate) auto

lemma group_count_keys: "fst ` set (group_count ks) = set ks"
  by (auto simp: group_count_def image_iff)

lemma group_count_sum:
  "sum_list (map snd (filter (\<lambda>it. fst it = u) (group_count ks))) = int (count_list ks u)"
  by (simp add: group_count_row)

lemma count_list_map_filter:
  "count_list (List.map_filter f xs) u = length (filter (\<lambda>x. f x = Some u) xs)"
  by (induction xs) (auto simp: List.map_filter_simps split: option.splits)

lemma filter_fst_map_prod:
  "filter (\<lambda>it. fst it = u) (map (\<lambda>(a, n). (a, g n)) rows) =
   map (\<lambda>(a, n). (a, g n)) (filter (\<lambda>it. fst it = u) rows)"
  by (induction rows) auto

lemma sum_scaled_rows:
  "sum_list (map snd (map (\<lambda>(a, n). (a, n * (5::int))) rows)) = sum_list (map snd rows) * 5"
  by (induction rows) (auto simp: algebra_simps)

lemma post_karma_sum:
  "sum_list (map snd (filter (\<lambda>it. fst it = u) (post_karma now posts pls))) =
   int (length (filter (\<lambda>l. cutoff now \<le> pl_created_at l \<and>
          post_author_of posts (pl_post l) = Some u) pls)) * 5"
  by (simp only: post_karma_def filter_fst_map_prod sum_scaled_rows group_count_sum
      count_list_map_filter filter_filter conj_commute)

lemma comment_karma_sum:
  "sum_list (map snd (filter (\<lambda>it. fst it = u) (comment_karma now comments cls))) =
   int (length (filter (\<lambda>l. cutoff now \<le> cl_created_at l \<and>
          comment_author_of comments (cl_comment l) = Some u) cls))"
  by (simp only: comment_karma_def group_count_sum count_list_map_filter filter_filter
      conj_commute)

lemma karma_by_user_get:
  "dict_get (karma_by_user now posts comments pls cls) u 0 =
     int (length (filter (\<lambda>l. cutoff now \<le> pl_created_at l \<and>
            post_author_of posts (pl_post l) = Some u) pls)) * 5 +
     int (length (filter (\<lambda>l. cutoff now \<le> cl_created_at l \<and>
            comment_author_of comments (cl_comment l) = Some u) cls))"
  by (simp add: karma_by_user_def foldl_add_karma_get post_karma_sum comment_karma_sum)


lemma karma_by_user_total:
  "dict_get (karma_by_user now posts comments pls cls) u 0 =
   total_karma now posts comments pls cls u"
  by (simp add: karma_by_user_get total_karma_def cutoff_def)

lemma karma_by_user_distinct: "distinct (map fst (karma_by_user now posts comments pls cls))"
  by (simp add: karma_by_user_def foldl_add_karma_distinct)

lemma set_map_filter: "set (List.map_filter f xs) = {y. \<exists>x\<in>set xs. f x = Some y}"
  by (induction xs) (auto simp: List.map_filter_simps split: option.splits)

lemma post_karma_keys:
  "fst ` set (post_karma now posts pls) =
   {u. \<exists>l\<in>set pls. cutoff now \<le> pl_created_at l \<and> post_author_of posts (pl_post l) = Some u}"
proof -
  have "fst ` set (post_karma now posts pls) =
        fst ` set (group_count (List.map_filter (\<lambda>l. post_author_of posts (pl_post l))
             (filter (\<lambda>l. cutoff now \<le> pl_created_at l) pls)))"
    unfolding post_karma_def by (force simp: image_iff)
  then show ?thesis by (auto simp: group_count_keys set_map_filter)
qed

lemma comment_karma_keys:
  "fst ` set (comment_karma now comments cls) =
   {u. \<exists>l\<in>set cls. cutoff now \<le> cl_created_at l \<and>
        comment_author_of comments (cl_comment l) = Some u}"
  by (auto simp: comment_karma_def group_count_keys set_map_filter)

lemma length_filter_pos: "0 < length (filter P xs) \<longleftrightarrow> (\<exists>x\<in>set xs. P x)"
  by (induction xs) auto

lemma karma_by_user_keys:
  "fst ` set (karma_by_user now posts comments pls cls) =
   {u. 0 < total_karma now posts comments pls cls u}"
proof -
  have "0 < total_karma now posts comments pls cls u \<longleftrightarrow>
        (\<exists>l\<in>set pls. cutoff now \<le> pl_created_at l \<and> post_author_of posts (pl_post l) = Some u) \<or>
        (\<exists>l\<in>set cls. cutoff now \<le> cl_created_at l \<and>
            comment_author_of comments (cl_comment l) = Some u)" for u
  proof -
    let ?a = "length (filter (\<lambda>l. cutoff now \<le> pl_created_at l \<and>
            post_author_of posts (pl_post l) = Some u) pls)"
    let ?b = "length (filter (\<lambda>l. cutoff now \<le> cl_created_at l \<and>
            comment_author_of comments (cl_comment l) = Some u) cls)"
    have "total_karma now posts comments pls cls u = int ?a * 5 + int ?b"
      by (simp add: total_karma_def cutoff_def)
    moreover have "0 < int a * 5 + int b \<longleftrightarrow> 0 < a \<or> 0 < b" for a b :: nat
      by arith
    ultimately have "0 < total_karma now posts comments pls cls u \<longleftrightarrow> 0 < ?a \<or> 0 < ?b"
      by (simp only:)
    then show ?thesis by (simp only: length_filter_pos)
  qed
  then show ?thesis
    by (auto simp: karma_by_user_def foldl_add_karma_keys post_karma_keys comment_karma_keys)
qed

lemma karma_by_user_set:
  "set (karma_by_user now posts comments pls cls) =
   {(u, k). 0 < k \<and> k = total_karma now posts comments pls cls u}"
proof -
  have "(u, k) \<in> set (karma_by_user now posts comments pls cls) \<longleftrightarrow>
        0 < k \<and> k = total_karma now posts comments pls cls u" for u k
    using dict_get_member [OF karma_by_user_distinct, of u k now posts comments pls cls 0]
      karma_by_user_keys [of now posts comments pls cls]
    by (auto simp: karma_by_user_total)
  then show ?thesis by auto
qed

subsection \<open>Ranking\<close>

lemma set_py_sorted_reverse: "set (py_sorted_reverse key xs) = set xs"
  by (simp add: py_sorted_reverse_def)

lemma py_sorted_reverse_descending:
  "sorted_wrt (\<lambda>a b. key b \<le> key a) (py_sorted_reverse key xs)"
proof -
  have "sorted (map key (sort_key key (rev xs)))" by simp
  then have "sorted_wrt (\<lambda>a b. key a \<le> key b) (sort_key key (rev xs))"
    by (simp add: sorted_map)
  then show ?thesis
    by (simp add: py_sorted_reverse_def sorted_wrt_rev)
qed

lemma py_sorted_reverse_stable:
  "filter (\<lambda>x. key x = k) (py_sorted_reverse key xs) = filter (\<lambda>x. key x = k) xs"
  by (simp add: py_sorted_reverse_def rev_filter [symmetric] sort_key_stable)

lemma set_leaderboard_subset:
  "set (leaderboard now posts comments pls cls) \<subseteq> set (karma_by_user now posts comments pls cls)"
  unfolding leaderboard_def
  using set_take_subset [of 5 "py_sorted_reverse snd (karma_by_user now posts comments pls cls)"]
  by (simp add: set_py_sorted_reverse)

lemma tie_leaderboard:
  "leaderboard scenario_now tie_posts tie_comments tie_post_likes tie_comment_likes =
     [(3, 5), (1, 5)]"
  by code_simp

lemma scenario_leaderboard:
  "leaderboard scenario_now scenario_posts scenario_comments scenario_post_likes
     scenario_comment_likes = [(1, 17)]"
  by code_simp

text \<open>
  Claim C1, as the code has it. The leaderboard is sorted by karma in descending order;
  the sort is stable and has no second key, so users with equal karma stand in the
  order in which the combining loops inserted them into \<open>karma_by_user\<close> (the post-karma
  rows first, then the comment-karma rows of users not seen before): for every karma
  value, the entries with that value are an initial part of the dictionary's entries
  with that value, in the same order. Ties are not ordered by user id.
\<close>

theorem leaderboard_order:
  "sorted_wrt (\<lambda>a b. snd b \<le> snd a) (leaderboard now posts comments pls cls) \<and>
   (\<forall>k. prefix (filter (\<lambda>x. snd x = k) (leaderboard now posts comments pls cls))
          (filter (\<lambda>x. snd x = k) (karma_by_user now posts comments pls cls)))"
proof
  show "sorted_wrt (\<lambda>a b. snd b \<le> snd a) (leaderboard now posts comments pls cls)"
    unfolding leaderboard_def by (intro sorted_wrt_take py_sorted_reverse_descending)
next
  let ?d = "karma_by_user now posts comments pls cls"
  show "\<forall>k. prefix (filter (\<lambda>x. snd x = k) (leaderboard now posts comments pls cls))
          (filter (\<lambda>x. snd x = k) ?d)"
  proof
    fix k
    have "prefix (filter (\<lambda>x. snd x = k) (take 5 (py_sorted_reverse snd ?d)))
            (filter (\<lambda>x. snd x = k) (py_sorted_reverse snd ?d))"
      by (intro filter_mono_prefix take_is_prefix)
    then show "prefix (filter (\<lambda>x. snd x = k) (leaderboard now posts comments pls cls))
          (filter (\<lambda>x. snd x = k) ?d)"
      by (simp add: leaderboard_def py_sorted_reverse_stable)
  qed
qed

text \<open>
  With the tie data the leaderboard is \<open>[(3, 5), (1, 5)]\<close>: user 3 stands before
  user 1 at equal karma, so the result is not ranked with ties broken by ascending id.
\<close>

theorem leaderboard_ties_counterexample:
  "\<not> ranked_ties_by_id
       (leaderboard scenario_now tie_posts tie_comments tie_post_likes tie_comment_likes)"
  by (simp add: tie_leaderboard ranked_ties_by_id_def)

text \<open>
  Claim C4. For every user \<open>u\<close> and every call time \<open>now\<close>, the karma the view holds
  for \<open>u\<close> (0 for a user without an entry) is 5 times the number of post-like rows with
  \<open>created_at \<ge> now - 24h\<close> whose post's author is \<open>u\<close>, plus 1 times the number of such
  comment-like rows whose comment's author is \<open>u\<close>; every entry of the leaderboard
  carries that value; and likes recorded one second before the cutoff change nothing.
\<close>

theorem leaderboard_karma_formula:
  "dict_get (karma_by_user now posts comments pls cls) u 0 =
     int (length (filter (\<lambda>l. now - timedelta_hours 24 \<le> pl_created_at l \<and>
            post_author_of posts (pl_post l) = Some u) pls)) * 5 +
     int (length (filter (\<lambda>l. now - timedelta_hours 24 \<le> cl_created_at l \<and>
            comment_author_of comments (cl_comment l) = Some u) cls)) * 1 \<and>
   (\<forall>(v, k) \<in> set (leaderboard now posts comments pls cls).
      k = dict_get (karma_by_user now posts comments pls cls) v 0) \<and>
   dict_get (karma_by_user now posts comments
      (pls @ [\<lparr>pl_post = p, pl_user = w, pl_created_at = now - timedelta_hours 24 - 1000000\<rparr>])
      (cls @ [\<lparr>cl_comment = c, cl_user = w,
               cl_created_at = now - timedelta_hours 24 - 1000000\<rparr>])) u 0 =
   dict_get (karma_by_user now posts comments pls cls) u 0"
proof (intro conjI)
  show "\<forall>(v, k) \<in> set (leaderboard now posts comments pls cls).
      k = dict_get (karma_by_user now posts comments pls cls) v 0"
    using set_leaderboard_subset [of now posts comments pls cls]
    by (auto simp: karma_by_user_set karma_by_user_total)
qed (simp_all add: karma_by_user_get cutoff_def)

text \<open>
  The scenario of the specification: three post likes and two comment likes inside the
  window give karma 17; the fourth post like, one second too old, is not counted.
\<close>

theorem leaderboard_karma_scenario:
  "dict_get (karma_by_user scenario_now scenario_posts scenario_comments scenario_post_likes
      scenario_comment_likes) 1 0 = 17 \<and>
   (1, 17) \<in> set (leaderboard scenario_now scenario_posts scenario_comments
      scenario_post_likes scenario_comment_likes) \<and>
   length scenario_post_likes = 4"
proof -
  note formula = leaderboard_karma_formula [of scenario_now scenario_posts scenario_comments
      scenario_post_likes scenario_comment_likes 1 0 0 0]
  have counted:
    "int (length (filter (\<lambda>l. scenario_now - timedelta_hours 24 \<le> pl_created_at l \<and>
            post_author_of scenario_posts (pl_post l) = Some 1) scenario_post_likes)) * 5 +
     int (length (filter (\<lambda>l. scenario_now - timedelta_hours 24 \<le> cl_created_at l \<and>
            comment_author_of scenario_comments (cl_comment l) = Some 1)
          scenario_comment_likes)) * 1 = 17"
    by code_simp
  have "dict_get (karma_by_user scenario_now scenario_posts scenario_comments
      scenario_post_likes scenario_comment_likes) 1 0 = 17"
    using formula counted by (simp only:)
  moreover have "(1, 17) \<in> set (leaderboard scenario_now scenario_posts scenario_comments
      scenario_post_likes scenario_comment_likes)"
    by (simp add: scenario_leaderboard)
  moreover have "length scenario_post_likes = 4"
    by (simp add: scenario_post_likes_def)
  ultimately show ?thesis by blast
qed

lemma crowd_karma_by_user:
  "karma_by_user scenario_now crowd_posts crowd_comments crowd_post_likes crowd_comment_likes =
     [(2, 10), (4, 6), (6, 5), (8, 50), (1, 4), (3, 5), (5, 3), (7, 1)]"
  by code_simp

lemma crowd_leaderboard:
  "leaderboard scenario_now crowd_posts crowd_comments crowd_post_likes crowd_comment_likes =
     [(8, 50), (2, 10), (4, 6), (6, 5), (3, 5)]"
  by code_simp

lemma crowd_total_1:
  "total_karma scenario_now crowd_posts crowd_comments crowd_post_likes crowd_comment_likes 1 = 4"
  by code_simp

lemma length_py_sorted_reverse: "length (py_sorted_reverse key xs) = length xs"
  by (simp add: py_sorted_reverse_def)

lemma karma_positive_finite:
  "finite {u. 0 < total_karma now posts comments pls cls u}"
  using karma_by_user_keys [of now posts comments pls cls, symmetric] by simp

lemma karma_by_user_length:
  "length (karma_by_user now posts comments pls cls) =
   card {u. 0 < total_karma now posts comments pls cls u}"
proof -
  have "card (set (map fst (karma_by_user now posts comments pls cls))) =
      length (map fst (karma_by_user now posts comments pls cls))"
    by (rule distinct_card [OF karma_by_user_distinct])
  then show ?thesis
    using karma_by_user_keys [of now posts comments pls cls] by simp
qed

lemma sorted_wrt_take_drop:
  assumes "sorted_wrt R xs" and "x \<in> set (take n xs)" and "y \<in> set (drop n xs)"
  shows "R x y"
proof -
  have "sorted_wrt R (take n xs @ drop n xs)" using assms(1) by simp
  with assms(2,3) show ?thesis unfolding sorted_wrt_append by blast
qed

text \<open>
  Claim C7. A user whose total karma in the window is 0 is absent from the leaderboard.
  The leaderboard is the first five entries of the ranked list, and the ranked list is
  sorted by descending karma and holds exactly one entry for every user with positive
  karma, with that karma. So the leaderboard has five entries, or as many as there are
  users with positive karma, and no user left out has more karma than a user shown:
  the truncation comes after the ranking of all of them.
\<close>

theorem leaderboard_positive_top5:
  "(\<forall>u. total_karma now posts comments pls cls u = 0 \<longrightarrow>
        u \<notin> fst ` set (leaderboard now posts comments pls cls)) \<and>
   leaderboard now posts comments pls cls =
     take 5 (py_sorted_reverse snd (karma_by_user now posts comments pls cls)) \<and>
   sorted_wrt (\<lambda>a b. snd b \<le> snd a)
     (py_sorted_reverse snd (karma_by_user now posts comments pls cls)) \<and>
   set (py_sorted_reverse snd (karma_by_user now posts comments pls cls)) =
     {(u, k). 0 < k \<and> k = total_karma now posts comments pls cls u} \<and>
   distinct (map fst (py_sorted_reverse snd (karma_by_user now posts comments pls cls))) \<and>
   length (leaderboard now posts comments pls cls) =
     min 5 (card {u. 0 < total_karma now posts comments pls cls u}) \<and>
   (\<forall>(u, k) \<in> set (leaderboard now posts comments pls cls).
      \<forall>v. v \<notin> fst ` set (leaderboard now posts comments pls cls) \<longrightarrow>
        total_karma now posts comments pls cls v \<le> k)"
proof (intro conjI)
  let ?d = "karma_by_user now posts comments pls cls"
  let ?r = "py_sorted_reverse snd ?d"
  let ?t = "total_karma now posts comments pls cls"
  show "\<forall>u. ?t u = 0 \<longrightarrow> u \<notin> fst ` set (leaderboard now posts comments pls cls)"
    using set_leaderboard_subset [of now posts comments pls cls]
    by (auto simp: karma_by_user_set)
  show lb: "leaderboard now posts comments pls cls = take 5 ?r"
    by (simp add: leaderboard_def)
  show srt: "sorted_wrt (\<lambda>a b. snd b \<le> snd a) ?r"
    by (rule py_sorted_reverse_descending)
  show st: "set ?r = {(u, k). 0 < k \<and> k = ?t u}"
    by (simp add: set_py_sorted_reverse karma_by_user_set)
  have "distinct ?d \<and> inj_on fst (set ?d)"
    using karma_by_user_distinct [of now posts comments pls cls] by (simp add: distinct_map)
  then show "distinct (map fst ?r)"
    by (simp add: distinct_map py_sorted_reverse_def)
  show "length (leaderboard now posts comments pls cls) = min 5 (card {u. 0 < ?t u})"
    by (simp add: lb length_py_sorted_reverse karma_by_user_length min.commute)
  show "\<forall>(u, k) \<in> set (leaderboard now posts comments pls cls).
      \<forall>v. v \<notin> fst ` set (leaderboard now posts comments pls cls) \<longrightarrow> ?t v \<le> k"
  proof (intro ballI allI impI, clarify)
    fix u k v
    assume uk: "(u, k) \<in> set (leaderboard now posts comments pls cls)"
      and v: "v \<notin> fst ` set (leaderboard now posts comments pls cls)"
    from uk have in_take: "(u, k) \<in> set (take 5 ?r)" by (simp only: lb)
    then have "(u, k) \<in> set ?r" by (rule in_set_takeD)
    then have pos: "0 < k" by (simp add: st)
    show "?t v \<le> k"
    proof (cases "0 < ?t v")
      case False
      with pos show ?thesis by simp
    next
      case True
      then have "(v, ?t v) \<in> set ?r" by (simp add: st)
      then have "(v, ?t v) \<in> set (take 5 ?r @ drop 5 ?r)" by simp
      moreover have "(v, ?t v) \<notin> set (take 5 ?r)"
        using v by (force simp: lb)
      ultimately have "(v, ?t v) \<in> set (drop 5 ?r)" by (simp only: set_append Un_iff) blast
      from sorted_wrt_take_drop [OF srt in_take this] show ?thesis by simp
    qed
  qed
qed

text \<open>
  Eight users with positive karma: the dictionary holds them in insertion order, the
  leaderboard shows the five with the most karma, user 8 first although it is the
  fourth entry of the dictionary, and user 1 with karma 4 is left out.
\<close>

theorem leaderboard_positive_top5_witness:
  "leaderboard scenario_now crowd_posts crowd_comments crowd_post_likes crowd_comment_likes =
     [(8, 50), (2, 10), (4, 6), (6, 5), (3, 5)] \<and>
   karma_by_user scenario_now crowd_posts crowd_comments crowd_post_likes crowd_comment_likes =
     [(2, 10), (4, 6), (6, 5), (8, 50), (1, 4), (3, 5), (5, 3), (7, 1)] \<and>
   1 \<notin> fst ` set (leaderboard scenario_now crowd_posts crowd_comments crowd_post_likes
      crowd_comment_likes) \<and>
   total_karma scenario_now crowd_posts crowd_comments crowd_post_likes crowd_comment_likes 1 = 4 \<and>
   total_karma scenario_now crowd_posts crowd_comments crowd_post_likes crowd_comment_likes 1 \<le> 5 \<and>
   total_karma scenario_now crowd_posts crowd_comments crowd_post_likes crowd_comment_likes 9 = 0 \<and>
   9 \<notin> fst ` set (leaderboard scenario_now crowd_posts crowd_comments crowd_post_likes
      crowd_comment_likes)"
proof -
  note t = leaderboard_positive_top5 [of scenario_now crowd_posts crowd_comments crowd_post_likes
      crowd_comment_likes]
  have zero: "total_karma scenario_now crowd_posts crowd_comments crowd_post_likes
      crowd_comment_likes 9 = 0"
    by code_simp
  have out1: "1 \<notin> fst ` set (leaderboard scenario_now crowd_posts crowd_comments
      crowd_post_likes crowd_comment_likes)"
    by (simp add: crowd_leaderboard)
  have last: "(3, 5) \<in> set (leaderboard scenario_now crowd_posts crowd_comments
      crowd_post_likes crowd_comment_likes)"
    by (simp add: crowd_leaderboard)
  from t zero have out9: "9 \<notin> fst ` set (leaderboard scenario_now crowd_posts crowd_comments
      crowd_post_likes crowd_comment_likes)"
    by blast
  from t last out1 have "total_karma scenario_now crowd_posts crowd_comments crowd_post_likes
      crowd_comment_likes 1 \<le> 5"
    by blast
  with crowd_leaderboard crowd_karma_by_user crowd_total_1 zero out1 out9 show ?thesis
    by blast
qed

subsection \<open>Like ledger\<close>

lemma like_present: "list_ex (same_pair p u) ledger \<Longrightarrow> like ledger p u t = (AlreadyLiked, ledger)"
  by (simp add: like_def PostLike_create_def)

lemma like_absent:
  "\<not> list_ex (same_pair p u) ledger \<Longrightarrow>
   like ledger p u t = (Liked, ledger @ [\<lparr>pl_post = p, pl_user = u, pl_created_at = t\<rparr>])"
  by (simp add: like_def PostLike_create_def)

lemma like_then_present: "list_ex (same_pair p u) (snd (like ledger p u t))"
  by (cases "list_ex (same_pair p u) ledger")
     (simp_all add: like_present like_absent same_pair_def)

lemma unlike_then_absent: "\<not> list_ex (same_pair p u) (snd (unlike ledger p u))"
  by (cases "list_ex (same_pair p u) ledger") (simp_all add: unlike_def list_ex_iff)

lemma unique_count_le_1:
  "unique_post_like ledger \<Longrightarrow> length (filter (same_pair p u) ledger) \<le> 1"
  unfolding unique_post_like_def
proof (induction ledger)
  case Nil
  then show ?case by simp
next
  case (Cons l ls)
  show ?case
  proof (cases "same_pair p u l")
    case True
    with Cons.prems have "\<forall>x\<in>set ls. \<not> same_pair p u x"
      by (auto simp: same_pair_def image_iff)
    then have "filter (same_pair p u) ls = []"
      by (simp add: filter_empty_conv)
    with True show ?thesis by simp
  next
    case False
    with Cons show ?thesis by simp
  qed
qed

lemma like_count_one:
  assumes "unique_post_like ledger"
  shows "length (filter (same_pair p u) (snd (like ledger p u t))) = 1"
proof (cases "list_ex (same_pair p u) ledger")
  case True
  then have "filter (same_pair p u) ledger \<noteq> []"
    by (simp add: list_ex_iff filter_empty_conv)
  then have "0 < length (filter (same_pair p u) ledger)" by simp
  with unique_count_le_1 [OF assms, of p u]
  have "length (filter (same_pair p u) ledger) = 1" by linarith
  with True show ?thesis
    by (simp add: like_present)
next
  case False
  then have "filter (same_pair p u) ledger = []"
    by (simp add: list_ex_iff filter_empty_conv)
  moreover have "same_pair p u \<lparr>pl_post = p, pl_user = u, pl_created_at = t\<rparr>"
    by (simp add: same_pair_def)
  ultimately show ?thesis using False by (simp add: like_absent)
qed

text \<open>
  Claim C3. On a ledger that satisfies the uniqueness constraint, for every post
  \<open>p\<close> and user \<open>u\<close>: the second of two \<open>like\<close> calls in sequence answers
  \<open>AlreadyLiked\<close> and leaves the ledger as the first call left it, with exactly one
  record for the pair; and after \<open>like\<close> and \<open>unlike\<close>, a second \<open>unlike\<close> answers
  \<open>NotLiked\<close>.
\<close>

theorem like_twice_unlike_twice:
  assumes "unique_post_like ledger"
  shows "fst (like (snd (like ledger p u t1)) p u t2) = AlreadyLiked \<and>
     snd (like (snd (like ledger p u t1)) p u t2) = snd (like ledger p u t1) \<and>
     length (filter (same_pair p u) (snd (like (snd (like ledger p u t1)) p u t2))) = 1 \<and>
     fst (unlike (snd (unlike (snd (like ledger p u t1)) p u)) p u) = NotLiked"
proof -
  have second: "like (snd (like ledger p u t1)) p u t2 = (AlreadyLiked, snd (like ledger p u t1))"
    by (rule like_present [OF like_then_present])
  have "unlike (snd (unlike (snd (like ledger p u t1)) p u)) p u =
        (NotLiked, snd (unlike (snd (like ledger p u t1)) p u))"
    using unlike_then_absent [of p u "snd (like ledger p u t1)"] by (simp add: unlike_def)
  with second like_count_one [OF assms, of p u t1] show ?thesis by simp
qed

theorem like_twice_unlike_twice_witness:
  "unique_post_like example_ledger \<and>
   snd (like example_ledger 10 3 200) =
     example_ledger @ [\<lparr>pl_post = 10, pl_user = 3, pl_created_at = 200\<rparr>] \<and>
   fst (like (snd (like example_ledger 10 3 200)) 10 3 300) = AlreadyLiked \<and>
   snd (like (snd (like example_ledger 10 3 200)) 10 3 300) =
     snd (like example_ledger 10 3 200) \<and>
   length (filter (same_pair 10 3) (snd (like (snd (like example_ledger 10 3 200)) 10 3 300))) = 1 \<and>
   fst (unlike (snd (unlike (snd (like example_ledger 10 3 200)) 10 3)) 10 3) = NotLiked"
proof -
  have u: "unique_post_like example_ledger"
    by (simp add: unique_post_like_def example_ledger_def)
  have first: "snd (like example_ledger 10 3 200) =
      example_ledger @ [\<lparr>pl_post = 10, pl_user = 3, pl_created_at = 200\<rparr>]"
    by (simp add: like_def PostLike_create_def example_ledger_def same_pair_def)
  show ?thesis
    using like_twice_unlike_twice [OF u, of 10 3 200 300] u first
    by blast
qed

subsection \<open>Tree reconstruction\<close>

lemma loop_body_dict:
  "loop_body s c = Inr s' \<Longrightarrow> comment_dict s' = (comment_dict s)(comment_id c \<mapsto> length (heap s))"
  by (auto simp: loop_body_def Let_def split: option.splits)

lemma loop_body_error: "loop_body s c = Inl e \<Longrightarrow> \<exists>k. e = KeyError k"
  by (auto simp: loop_body_def Let_def split: option.splits)

lemma loop_body_orphan:
  "parent_id c = Some p \<Longrightarrow> p \<noteq> comment_id c \<Longrightarrow> comment_dict s p = None \<Longrightarrow>
   loop_body s c = Inl (KeyError p)"
  by (simp add: loop_body_def Let_def)

lemma loop_orphan:
  "c \<in> set cs \<Longrightarrow> parent_id c = Some p \<Longrightarrow> p \<notin> comment_id ` set cs \<Longrightarrow>
   comment_dict s p = None \<Longrightarrow> \<exists>k. loop s cs = Inl (KeyError k)"
proof (induction cs arbitrary: s)
  case Nil
  then show ?case by simp
next
  case (Cons x xs)
  show ?case
  proof (cases "loop_body s x")
    case (Inl e)
    then show ?thesis using loop_body_error [OF Inl] by auto
  next
    case (Inr s')
    have neq: "p \<noteq> comment_id x" using Cons.prems(3) by auto
    have "c \<noteq> x"
    proof
      assume "c = x"
      with Cons.prems neq have "loop_body s x = Inl (KeyError p)"
        by (simp add: loop_body_orphan)
      with Inr show False by simp
    qed
    with Cons.prems have "c \<in> set xs" by simp
    moreover have "comment_dict s' p = None"
      using loop_body_dict [OF Inr] neq Cons.prems(4) by simp
    moreover have "p \<notin> comment_id ` set xs" using Cons.prems(3) by auto
    ultimately have "\<exists>k. loop s' xs = Inl (KeyError k)"
      using Cons.IH Cons.prems(2) by blast
    with Inr show ?thesis by simp
  qed
qed

text \<open>
  Claim C2. When some comment of the input names a parent id that no comment of the
  input has, the tree build does not return a forest: it signals an error, the
  \<open>KeyError\<close> that the lookup of the parent in \<open>comment_dict\<close> raises. The comment is
  never placed in the root list.
\<close>

theorem orphan_raises_KeyError:
  assumes "c \<in> set comments" and "parent_id c = Some p"
    and "p \<notin> comment_id ` set comments"
  shows "\<exists>k. get_comments comments = Inl (KeyError k)"
proof -
  have "comment_dict initial_state p = None" by (simp add: initial_state_def)
  from loop_orphan [OF assms this] show ?thesis
    by (auto simp: get_comments_def)
qed

theorem orphan_raises_KeyError_witness:
  "mk_comment 3 (Some 9) ''0009.0001'' 1 \<in> set orphan_comments \<and>
   parent_id (mk_comment 3 (Some 9) ''0009.0001'' 1) = Some 9 \<and>
   9 \<notin> comment_id ` set orphan_comments \<and>
   (\<exists>k. get_comments orphan_comments = Inl (KeyError k))"
proof -
  have a: "mk_comment 3 (Some 9) ''0009.0001'' 1 \<in> set orphan_comments"
    by (simp add: orphan_comments_def)
  have b: "parent_id (mk_comment 3 (Some 9) ''0009.0001'' 1) = Some 9"
    by (simp add: mk_comment_def)
  have c: "9 \<notin> comment_id ` set orphan_comments"
    by (simp add: orphan_comments_def mk_comment_def)
  from orphan_raises_KeyError [OF a b c] a b c show ?thesis by blast
qed

lemma digit_above_dot: "ch \<in> set ''0123456789'' \<Longrightarrow> CHR ''.'' < ch"
  by auto

lemma segment_above_dot: "is_segment seg \<Longrightarrow> ch \<in> set seg \<Longrightarrow> CHR ''.'' < ch"
  unfolding is_segment_def using digit_above_dot by blast

lemma segment_no_dot: "is_segment seg \<Longrightarrow> CHR ''.'' \<notin> set seg"
  using segment_above_dot by fastforce

lemma child_path_split:
  "is_child_path p x \<Longrightarrow> \<exists>seg. x = p @ ''.'' @ seg \<and> is_segment seg"
  unfolding is_child_path_def
  by (metis append_assoc append_take_drop_id)

lemma less_append_Cons: "xs < xs @ y # ys" for xs :: "'a::linorder list"
  by (induction xs) auto

lemma le_append: "xs \<le> xs @ ys" for xs :: "'a::linorder list"
  by (cases ys) (auto simp: less_append_Cons less_imp_le)

lemma in_block_le: "in_block p x \<Longrightarrow> p \<le> x"
  by (auto simp: in_block_def prefix_def le_append)

lemma between_dot:
  "p < x \<Longrightarrow> x < p @ CHR ''.'' # s \<Longrightarrow> \<forall>ch\<in>set x. CHR ''.'' \<le> ch \<Longrightarrow>
   prefix (p @ ''.'') x"
proof (induction p arbitrary: x)
  case Nil
  then show ?case by (cases x) auto
next
  case (Cons a p)
  then show ?case by (cases x) auto
qed

lemma dot_prefix_split:
  assumes "prefix (p @ ''.'') (q @ ''.'' @ seg)" and "CHR ''.'' \<notin> set seg"
  shows "p = q \<or> prefix (p @ ''.'') q"
proof -
  from assms(1) consider "prefix (p @ ''.'') q"
    | us where "p @ ''.'' = q @ us" "prefix us (''.'' @ seg)"
    by (auto simp: prefix_append)
  then show ?thesis
  proof cases
    case 1
    then show ?thesis by simp
  next
    case 2
    show ?thesis
    proof (cases us)
      case Nil
      with 2 show ?thesis by auto
    next
      case (Cons u us')
      with 2 have u: "u = CHR ''.''" and pre: "prefix us' seg" by auto
      show ?thesis
      proof (cases "us' = []")
        case True
        with 2 Cons u show ?thesis by simp
      next
        case False
        with 2(1) Cons have "last us' = CHR ''.''"
          by (metis last_appendR last_snoc list.distinct(1) last_ConsR)
        moreover have "last us' \<in> set seg"
          using False pre by (meson last_in_set set_mono_prefix subsetD)
        ultimately show ?thesis using assms(2) by simp
      qed
    qed
  qed
qed

lemma cross_block:
  assumes "p1 < p2" and "in_block p1 x" and "in_block p2 y"
    and "\<not> prefix (p1 @ ''.'') p2" and "\<forall>ch\<in>set p2. CHR ''.'' \<le> ch"
  shows "x < y"
proof (rule ccontr)
  assume "\<not> x < y"
  then have "y \<le> x" by simp
  moreover have "p2 \<le> y" using assms(3) by (rule in_block_le)
  ultimately have le: "p2 \<le> x" by simp
  with assms(1) have "x \<noteq> p1" by auto
  with assms(2) obtain s where x: "x = p1 @ CHR ''.'' # s"
    by (auto simp: in_block_def prefix_def)
  have "p2 \<noteq> x" using assms(4) x by auto
  with le have "p2 < p1 @ CHR ''.'' # s" using x by simp
  from between_dot [OF assms(1) this assms(5)] assms(4) show False by simp
qed


lemma wf_cases:
  assumes "wf_paths cs" and "x \<in> set cs"
  obtains (root) "parent_id x = None" "is_segment (path x)"
  | (reply) q seg where "q \<in> set cs" "parent_id x = Some (comment_id q)"
      "path x = path q @ ''.'' @ seg" "is_segment seg"
proof (cases "parent_id x")
  case None
  with assms have "is_segment (path x)" by (auto simp: wf_paths_def)
  with None show ?thesis by (rule root)
next
  case (Some p)
  with assms obtain q where q: "q \<in> set cs" "comment_id q = p" "is_child_path (path q) (path x)"
    by (fastforce simp: wf_paths_def)
  from child_path_split [OF q(3)] obtain seg where "path x = path q @ ''.'' @ seg" "is_segment seg"
    by blast
  with q Some show ?thesis by (auto intro: reply)
qed

lemma wf_path_chars:
  assumes "wf_paths cs"
  shows "x \<in> set cs \<Longrightarrow> \<forall>ch\<in>set (path x). CHR ''.'' \<le> ch"
proof (induction "length (path x)" arbitrary: x rule: less_induct)
  case less
  from assms less.prems show ?case
  proof (cases rule: wf_cases)
    case root
    then show ?thesis using segment_above_dot by (auto intro: less_imp_le)
  next
    case (reply q seg)
    then have "\<forall>ch\<in>set (path q). CHR ''.'' \<le> ch"
      using less.hyps [of q] by simp
    moreover have "\<forall>ch\<in>set seg. CHR ''.'' \<le> ch"
      using reply(4) segment_above_dot by (auto intro: less_imp_le)
    ultimately show ?thesis using reply(3) by auto
  qed
qed

lemma reply_path:
  assumes "wf_paths cs" and "distinct (map comment_id cs)"
    and "a \<in> set cs" and "b \<in> set cs" and "parent_id b = Some (comment_id a)"
  obtains seg where "path b = path a @ ''.'' @ seg" "is_segment seg"
proof -
  from assms(1,4) show ?thesis
  proof (cases rule: wf_cases)
    case root
    with assms(5) show ?thesis by simp
  next
    case (reply q seg)
    from assms(2) have "inj_on comment_id (set cs)" by (simp add: distinct_map)
    with reply(1,2) assms(3,5) have "q = a" by (auto dest: inj_onD)
    with reply show ?thesis by (auto intro: that)
  qed
qed

lemma block_cover:
  assumes "wf_paths cs" and "distinct (map path cs)" and "a \<in> set cs"
  shows "x \<in> set cs \<Longrightarrow> prefix (path a @ ''.'') (path x) \<Longrightarrow>
    \<exists>b\<in>set cs. parent_id b = Some (comment_id a) \<and> in_block (path b) (path x)"
proof (induction "length (path x)" arbitrary: x rule: less_induct)
  case less
  from assms(1) less.prems(1) show ?case
  proof (cases rule: wf_cases)
    case root
    have "CHR ''.'' \<in> set (path x)"
      using less.prems(2) by (auto simp: prefix_def)
    with root segment_no_dot show ?thesis by blast
  next
    case (reply q seg)
    have "prefix (path a @ ''.'') (path q @ ''.'' @ seg)"
      using less.prems(2) reply(3) by simp
    from dot_prefix_split [OF this segment_no_dot [OF reply(4)]]
    have "path a = path q \<or> prefix (path a @ ''.'') (path q)" .
    then show ?thesis
    proof
      assume "path a = path q"
      moreover from assms(2) have "inj_on path (set cs)" by (simp add: distinct_map)
      ultimately have "a = q" using assms(3) reply(1) by (auto dest: inj_onD)
      with reply(2) less.prems(1) show ?thesis by (auto simp: in_block_def)
    next
      assume "prefix (path a @ ''.'') (path q)"
      with less.hyps [of q] reply obtain b where b: "b \<in> set cs"
        "parent_id b = Some (comment_id a)" "in_block (path b) (path q)"
        by auto
      from b(3) have "prefix (path b @ ''.'') (path x)"
        unfolding in_block_def
      proof
        assume "path q = path b"
        with reply(3) show ?thesis by simp
      next
        assume "prefix (path b @ ''.'') (path q)"
        moreover have "prefix (path q) (path x)" using reply(3) by simp
        ultimately show ?thesis by (rule prefix_order.trans)
      qed
      with b show ?thesis by (auto simp: in_block_def)
    qed
  qed
qed

lemma root_cover:
  assumes "wf_paths cs"
  shows "x \<in> set cs \<Longrightarrow> \<exists>r\<in>set cs. parent_id r = None \<and> in_block (path r) (path x)"
proof (induction "length (path x)" arbitrary: x rule: less_induct)
  case less
  from assms less.prems show ?case
  proof (cases rule: wf_cases)
    case root
    with less.prems show ?thesis by (auto simp: in_block_def)
  next
    case (reply q seg)
    with less.hyps [of q] obtain r where r: "r \<in> set cs" "parent_id r = None"
      "in_block (path r) (path q)"
      by auto
    from r(3) have "prefix (path r @ ''.'') (path x)"
      unfolding in_block_def
    proof
      assume "path q = path r"
      with reply(3) show ?thesis by simp
    next
      assume "prefix (path r @ ''.'') (path q)"
      moreover have "prefix (path q) (path x)" using reply(3) by simp
      ultimately show ?thesis by (rule prefix_order.trans)
    qed
    with r show ?thesis by (auto simp: in_block_def)
  qed
qed

lemma block_of_reply:
  assumes "path b = path a @ ''.'' @ seg" and "in_block (path b) x"
  shows "prefix (path a @ ''.'') x"
  using assms by (auto simp: in_block_def prefix_def)


lemma filter_upt_snoc:
  "filter P [0..<length (xs @ [c])] =
   filter P [0..<length xs] @ (if P (length xs) then [length xs] else [])"
  by simp

lemma kids_snoc_old:
  assumes "a < length xs"
  shows "kids (xs @ [c]) a =
    kids xs a @ (if parent_id c = Some (comment_id (xs ! a)) then [length xs] else [])"
proof -
  have "filter (\<lambda>b. parent_id ((xs @ [c]) ! b) = Some (comment_id ((xs @ [c]) ! a))) [0..<length xs]
      = filter (\<lambda>b. parent_id (xs ! b) = Some (comment_id (xs ! a))) [0..<length xs]"
    using assms by (intro filter_cong) (auto simp: nth_append)
  then show ?thesis
    using assms unfolding kids_def filter_upt_snoc by (simp add: nth_append)
qed

lemma kids_snoc_new:
  assumes "\<forall>b<length xs. parent_id (xs ! b) \<noteq> Some (comment_id c)"
    and "parent_id c \<noteq> Some (comment_id c)"
  shows "kids (xs @ [c]) (length xs) = []"
proof -
  have "filter (\<lambda>b. parent_id ((xs @ [c]) ! b) = Some (comment_id ((xs @ [c]) ! length xs)))
          [0..<length xs] = []"
    using assms(1) by (auto simp: filter_empty_conv nth_append)
  then show ?thesis
    using assms(2) unfolding kids_def filter_upt_snoc by simp
qed

lemma roots_snoc:
  "roots (xs @ [c]) = roots xs @ (if parent_id c = None then [length xs] else [])"
proof -
  have "filter (\<lambda>b. parent_id ((xs @ [c]) ! b) = None) [0..<length xs]
      = filter (\<lambda>b. parent_id (xs ! b) = None) [0..<length xs]"
    by (intro filter_cong) (auto simp: nth_append)
  then show ?thesis
    unfolding roots_def filter_upt_snoc by simp
qed

lemma parents_before_butlast:
  assumes "parents_before (xs @ [c])"
  shows "parents_before xs"
  unfolding parents_before_def
proof (intro allI impI)
  fix b p
  assume b: "b < length xs" and p: "parent_id (xs ! b) = Some p"
  then have "b < length (xs @ [c])" "parent_id ((xs @ [c]) ! b) = Some p"
    by (simp_all add: nth_append)
  with assms obtain a where a: "a < b" "comment_id ((xs @ [c]) ! a) = p"
    unfolding parents_before_def by blast
  with b have "comment_id (xs ! a) = p" by (simp add: nth_append)
  with a show "\<exists>a<b. comment_id (xs ! a) = p" by blast
qed

lemma built_heap_snoc:
  assumes "distinct (map comment_id (xs @ [c]))" and "parents_before (xs @ [c])"
  shows "built_heap (xs @ [c]) =
    map (\<lambda>a. (xs ! a, kids xs a @
          (if parent_id c = Some (comment_id (xs ! a)) then [length xs] else [])))
      [0..<length xs] @ [(c, [])]"
proof -
  have fresh: "\<forall>x\<in>set xs. comment_id x \<noteq> comment_id c"
    using assms(1) by (force simp: image_iff)
  have no_kid: "parent_id (xs ! b) \<noteq> Some (comment_id c)" if "b < length xs" for b
  proof
    assume eq: "parent_id (xs ! b) = Some (comment_id c)"
    from that have "b < length (xs @ [c])" by simp
    moreover from that eq have "parent_id ((xs @ [c]) ! b) = Some (comment_id c)"
      by (simp add: nth_append)
    ultimately obtain a where "a < b" "comment_id ((xs @ [c]) ! a) = comment_id c"
      using assms(2) unfolding parents_before_def by blast
    with that have "comment_id (xs ! a) = comment_id c" "xs ! a \<in> set xs"
      by (auto simp: nth_append)
    with fresh show False by blast
  qed
  have self: "parent_id c \<noteq> Some (comment_id c)"
  proof
    assume eq: "parent_id c = Some (comment_id c)"
    then have "parent_id ((xs @ [c]) ! length xs) = Some (comment_id c)" by simp
    moreover have "length xs < length (xs @ [c])" by simp
    ultimately obtain a where "a < length xs" "comment_id ((xs @ [c]) ! a) = comment_id c"
      using assms(2) unfolding parents_before_def by blast
    then have "comment_id (xs ! a) = comment_id c" "xs ! a \<in> set xs"
      by (auto simp: nth_append)
    with fresh show False by blast
  qed
  have new: "kids (xs @ [c]) (length xs) = []"
    using no_kid self by (intro kids_snoc_new) auto
  have old: "map (\<lambda>a. ((xs @ [c]) ! a, kids (xs @ [c]) a)) [0..<length xs] =
        map (\<lambda>a. (xs ! a, kids xs a @
          (if parent_id c = Some (comment_id (xs ! a)) then [length xs] else [])))
          [0..<length xs]"
    by (intro map_cong) (auto simp: nth_append kids_snoc_old)
  have "built_heap (xs @ [c]) =
      map (\<lambda>a. ((xs @ [c]) ! a, kids (xs @ [c]) a)) [0..<length xs] @
      [((xs @ [c]) ! length xs, kids (xs @ [c]) (length xs))]"
    by (simp add: built_heap_def)
  also have "\<dots> = map (\<lambda>a. (xs ! a, kids xs a @
          (if parent_id c = Some (comment_id (xs ! a)) then [length xs] else [])))
          [0..<length xs] @ [(c, [])]"
    by (simp only: old new nth_append_length)
  finally show ?thesis .
qed


lemma length_built_heap: "length (built_heap cs) = length cs"
  by (simp add: built_heap_def)

lemma built_heap_nth: "a < length cs \<Longrightarrow> built_heap cs ! a = (cs ! a, kids cs a)"
  by (simp add: built_heap_def)

lemma heap_update_eq:
  assumes "a < length xs" and "distinct (map comment_id xs)"
    and "parent_id c = Some (comment_id (xs ! a))"
  shows "(built_heap xs @ [(c, [])])
      [a := (fst ((built_heap xs @ [(c, [])]) ! a),
             snd ((built_heap xs @ [(c, [])]) ! a) @ [length xs])] =
    map (\<lambda>i. (xs ! i, kids xs i @
          (if parent_id c = Some (comment_id (xs ! i)) then [length xs] else [])))
      [0..<length xs] @ [(c, [])]"
proof (rule nth_equalityI)
  show "length ((built_heap xs @ [(c, [])])
      [a := (fst ((built_heap xs @ [(c, [])]) ! a),
             snd ((built_heap xs @ [(c, [])]) ! a) @ [length xs])]) =
    length (map (\<lambda>i. (xs ! i, kids xs i @
          (if parent_id c = Some (comment_id (xs ! i)) then [length xs] else [])))
      [0..<length xs] @ [(c, [])])"
    by (simp add: length_built_heap)
next
  fix i
  assume "i < length ((built_heap xs @ [(c, [])])
      [a := (fst ((built_heap xs @ [(c, [])]) ! a),
             snd ((built_heap xs @ [(c, [])]) ! a) @ [length xs])])"
  then have i: "i < Suc (length xs)" by (simp add: length_built_heap)
  have other: "comment_id (xs ! i) \<noteq> comment_id (xs ! a)" if "i < length xs" "i \<noteq> a"
    using that assms(1,2) nth_eq_iff_index_eq [of "map comment_id xs" i a] by simp
  show "(built_heap xs @ [(c, [])])
      [a := (fst ((built_heap xs @ [(c, [])]) ! a),
             snd ((built_heap xs @ [(c, [])]) ! a) @ [length xs])] ! i =
    (map (\<lambda>i. (xs ! i, kids xs i @
          (if parent_id c = Some (comment_id (xs ! i)) then [length xs] else [])))
      [0..<length xs] @ [(c, [])]) ! i"
  proof (cases "i = length xs")
    case True
    with assms(1) show ?thesis
      by (simp add: nth_append length_built_heap)
  next
    case False
    with i have lt: "i < length xs" by simp
    show ?thesis
    proof (cases "i = a")
      case True
      with assms show ?thesis
        by (simp add: nth_append length_built_heap built_heap_nth)
    next
      case False
      with lt assms other [OF lt False] show ?thesis
        by (simp add: nth_append length_built_heap built_heap_nth)
    qed
  qed
qed

lemma loop_body_built:
  assumes "built s xs" and "distinct (map comment_id (xs @ [c]))"
    and "parents_before (xs @ [c])"
  shows "\<exists>s'. loop_body s c = Inr s' \<and> built s' (xs @ [c])"
proof -
  from assms(1) have h: "heap s = built_heap xs" and r: "root_comments s = roots xs"
    and d: "\<And>a. a < length xs \<Longrightarrow> comment_dict s (comment_id (xs ! a)) = Some a"
    by (auto simp: built_def)
  have len: "length (heap s) = length xs" by (simp add: h length_built_heap)
  have fresh: "\<forall>x\<in>set xs. comment_id x \<noteq> comment_id c"
    using assms(2) by (force simp: image_iff)
  have dict': "((comment_dict s)(comment_id c \<mapsto> length xs)) (comment_id ((xs @ [c]) ! a)) = Some a"
    if "a < length (xs @ [c])" for a
  proof (cases "a = length xs")
    case True
    then show ?thesis by simp
  next
    case False
    with that have lt: "a < length xs" by simp
    then have "comment_id (xs ! a) \<noteq> comment_id c" using fresh by simp
    with lt d [OF lt] show ?thesis by (simp add: nth_append)
  qed
  show ?thesis
  proof (cases "parent_id c")
    case None
    let ?s' = "\<lparr>heap = built_heap xs @ [(c, [])],
      comment_dict = (comment_dict s)(comment_id c \<mapsto> length xs),
      root_comments = roots xs @ [length xs]\<rparr>"
    have "loop_body s c = Inr ?s'"
      using None by (simp add: loop_body_def Let_def h r length_built_heap)
    moreover have "built_heap (xs @ [c]) = built_heap xs @ [(c, [])]"
      using built_heap_snoc [OF assms(2,3)] None by (simp add: built_heap_def)
    then have "built ?s' (xs @ [c])"
      unfolding built_def using dict' None by (simp add: roots_snoc)
    ultimately show ?thesis by blast
  next
    case (Some p)
    have "length xs < length (xs @ [c])" "parent_id ((xs @ [c]) ! length xs) = Some p"
      using Some by simp_all
    then obtain a where a: "a < length xs" "comment_id ((xs @ [c]) ! a) = p"
      using assms(3) unfolding parents_before_def by blast
    then have pa: "comment_id (xs ! a) = p" by (simp add: nth_append)
    then have "p \<noteq> comment_id c" using fresh a(1) by auto
    with d [OF a(1)] pa
    have look: "((comment_dict s)(comment_id c \<mapsto> length xs)) p = Some a" by auto
    let ?h1 = "built_heap xs @ [(c, [])]"
    let ?s' = "\<lparr>heap = ?h1 [a := (fst (?h1 ! a), snd (?h1 ! a) @ [length xs])],
      comment_dict = (comment_dict s)(comment_id c \<mapsto> length xs),
      root_comments = roots xs\<rparr>"
    have "loop_body s c = Inr ?s'"
      using Some look by (simp add: loop_body_def Let_def h r length_built_heap)
    moreover have "distinct (map comment_id xs)" using assms(2) by simp
    from heap_update_eq [OF a(1) this] Some pa
    have "?h1 [a := (fst (?h1 ! a), snd (?h1 ! a) @ [length xs])] = built_heap (xs @ [c])"
      using built_heap_snoc [OF assms(2,3)] by simp
    then have "built ?s' (xs @ [c])"
      unfolding built_def using dict' Some by (simp add: roots_snoc)
    ultimately show ?thesis by blast
  qed
qed

lemma loop_append:
  "loop s (xs @ ys) = (case loop s xs of Inl e \<Rightarrow> Inl e | Inr s' \<Rightarrow> loop s' ys)"
  by (induction xs arbitrary: s) (auto split: sum.splits)

lemma built_initial: "built initial_state []"
  by (simp add: built_def initial_state_def built_heap_def roots_def)

lemma loop_built:
  "distinct (map comment_id cs) \<Longrightarrow> parents_before cs \<Longrightarrow>
   \<exists>s. loop initial_state cs = Inr s \<and> built s cs"
proof (induction cs rule: rev_induct)
  case Nil
  then show ?case by (simp add: built_initial)
next
  case (snoc c xs)
  from snoc.prems have "distinct (map comment_id xs)" "parents_before xs"
    by (auto dest: parents_before_butlast)
  with snoc.IH obtain s where s: "loop initial_state xs = Inr s" "built s xs" by blast
  from loop_body_built [OF s(2) snoc.prems] obtain s' where
    "loop_body s c = Inr s'" "built s' (xs @ [c])" by blast
  with s(1) show ?case by (simp add: loop_append)
qed


lemma those_map_Some:
  "\<forall>x\<in>set xs. f x = Some (g x) \<Longrightarrow> those (map f xs) = Some (map g xs)"
  by (induction xs) auto

lemma sorted_wrt_concat_map:
  "\<forall>k\<in>set ks. sorted_wrt R (F k) \<Longrightarrow>
   sorted_wrt (\<lambda>k k'. \<forall>x\<in>set (F k). \<forall>y\<in>set (F k'). R x y) ks \<Longrightarrow>
   sorted_wrt R (concat (map F ks))"
  by (induction ks) (auto simp: sorted_wrt_append)

lemma sorted_paths_distinct:
  "sorted_wrt (\<lambda>x y. path x < path y) cs \<Longrightarrow> distinct (map path cs)"
  using strict_sorted_iff [of "map path cs"] by (simp add: sorted_wrt_map)

lemma sorted_paths_index:
  assumes "sorted_wrt (\<lambda>x y. path x < path y) cs" and "a < length cs" and "b < length cs"
    and "path (cs ! a) < path (cs ! b)"
  shows "a < b"
proof (rule ccontr)
  assume "\<not> a < b"
  then consider "b = a" | "b < a" by linarith
  then show False
  proof cases
    case 1
    with assms(4) show False by simp
  next
    case 2
    from sorted_wrt_nth_less [OF assms(1) 2 assms(2)] assms(4) show False by simp
  qed
qed

lemma kid_facts:
  assumes "wf_paths cs" and "distinct (map comment_id cs)"
    and "sorted_wrt (\<lambda>x y. path x < path y) cs"
    and "a < length cs" and "b \<in> set (kids cs a)"
  shows "b < length cs" and "a < b"
    and "\<exists>seg. path (cs ! b) = path (cs ! a) @ ''.'' @ seg \<and> is_segment seg"
proof -
  from assms(5) have b: "b < length cs" "parent_id (cs ! b) = Some (comment_id (cs ! a))"
    by (auto simp: kids_def)
  from assms(4) b(1) have mem: "cs ! a \<in> set cs" "cs ! b \<in> set cs" by simp_all
  from reply_path [OF assms(1,2) mem b(2)] obtain seg where
    seg: "path (cs ! b) = path (cs ! a) @ ''.'' @ seg" "is_segment seg" by blast
  then have "path (cs ! a) < path (cs ! b)" by (simp add: less_append_Cons)
  from sorted_paths_index [OF assms(3,4) b(1) this] b(1) seg
  show "b < length cs" and "a < b"
    and "\<exists>seg. path (cs ! b) = path (cs ! a) @ ''.'' @ seg \<and> is_segment seg"
    by blast+
qed

lemma sibling_blocks:
  assumes "wf_paths cs" and "distinct (map comment_id cs)"
    and "sorted_wrt (\<lambda>x y. path x < path y) cs"
    and "a < length cs" and "b \<in> set (kids cs a)" and "b' \<in> set (kids cs a)" and "b < b'"
    and "in_block (path (cs ! b)) x" and "in_block (path (cs ! b')) y"
  shows "x < y"
proof -
  from kid_facts [OF assms(1-5)] obtain seg where
    b: "b < length cs" "path (cs ! b) = path (cs ! a) @ ''.'' @ seg" by blast
  from kid_facts [OF assms(1-4,6)] obtain seg' where
    b': "b' < length cs" "path (cs ! b') = path (cs ! a) @ ''.'' @ seg'" "is_segment seg'"
    by blast
  have less: "path (cs ! b) < path (cs ! b')"
    using sorted_wrt_nth_less [OF assms(3,7) b'(1)] .
  have "\<not> prefix (path (cs ! b) @ ''.'') (path (cs ! b'))"
  proof
    assume "prefix (path (cs ! b) @ ''.'') (path (cs ! b'))"
    then have "prefix (seg @ ''.'') seg'" using b(2) b'(2) by simp
    then have "CHR ''.'' \<in> set seg'" by (auto simp: prefix_def)
    with segment_no_dot [OF b'(3)] show False by simp
  qed
  moreover have "cs ! b' \<in> set cs" using b'(1) by simp
  then have "\<forall>ch\<in>set (path (cs ! b')). CHR ''.'' \<le> ch"
    by (rule wf_path_chars [OF assms(1)])
  ultimately show ?thesis
    using cross_block [OF less assms(8,9)] by blast
qed

lemma root_blocks:
  assumes "wf_paths cs" and "sorted_wrt (\<lambda>x y. path x < path y) cs"
    and "r \<in> set (roots cs)" and "r' \<in> set (roots cs)" and "r < r'"
    and "in_block (path (cs ! r)) x" and "in_block (path (cs ! r')) y"
  shows "x < y"
proof -
  from assms(3,4) have r: "r < length cs" "r' < length cs" "parent_id (cs ! r') = None"
    by (auto simp: roots_def)
  then have mem: "cs ! r' \<in> set cs" by simp
  have seg: "is_segment (path (cs ! r'))"
    using assms(1) mem r(3) by (cases rule: wf_cases) auto
  have less: "path (cs ! r) < path (cs ! r')"
    using sorted_wrt_nth_less [OF assms(2,5) r(2)] .
  have "\<not> prefix (path (cs ! r) @ ''.'') (path (cs ! r'))"
  proof
    assume "prefix (path (cs ! r) @ ''.'') (path (cs ! r'))"
    then have "CHR ''.'' \<in> set (path (cs ! r'))" by (auto simp: prefix_def)
    with segment_no_dot [OF seg] show False by simp
  qed
  moreover have "\<forall>ch\<in>set (path (cs ! r')). CHR ''.'' \<le> ch"
    using wf_path_chars [OF assms(1) mem] .
  ultimately show ?thesis
    using cross_block [OF less assms(6,7)] by blast
qed

lemma kids_sorted: "sorted_wrt (<) (kids cs a)"
  unfolding kids_def by (intro sorted_wrt_filter) simp

lemma roots_sorted: "sorted_wrt (<) (roots cs)"
  unfolding roots_def by (intro sorted_wrt_filter) simp

lemma kids_blocks_set:
  assumes "wf_paths cs" and "distinct (map comment_id cs)"
    and "sorted_wrt (\<lambda>x y. path x < path y) cs" and "a < length cs"
  shows "(\<Union>b\<in>set (kids cs a). {x \<in> set cs. in_block (path (cs ! b)) (path x)}) =
    {x \<in> set cs. prefix (path (cs ! a) @ ''.'') (path x)}"
proof (intro equalityI subsetI)
  fix x
  assume "x \<in> (\<Union>b\<in>set (kids cs a). {x \<in> set cs. in_block (path (cs ! b)) (path x)})"
  then obtain b where b: "b \<in> set (kids cs a)" "x \<in> set cs" "in_block (path (cs ! b)) (path x)"
    by blast
  from kid_facts(3) [OF assms b(1)] obtain seg where
    "path (cs ! b) = path (cs ! a) @ ''.'' @ seg" by blast
  from block_of_reply [OF this b(3)] b(2)
  show "x \<in> {x \<in> set cs. prefix (path (cs ! a) @ ''.'') (path x)}" by simp
next
  fix x
  assume "x \<in> {x \<in> set cs. prefix (path (cs ! a) @ ''.'') (path x)}"
  then have x: "x \<in> set cs" "prefix (path (cs ! a) @ ''.'') (path x)" by simp_all
  have "cs ! a \<in> set cs" using assms(4) by simp
  from block_cover [OF assms(1) sorted_paths_distinct [OF assms(3)] this x]
  obtain q where q: "q \<in> set cs" "parent_id q = Some (comment_id (cs ! a))"
    "in_block (path q) (path x)" by blast
  from q(1) obtain b where "b < length cs" "cs ! b = q" by (auto simp: in_set_conv_nth)
  with q have "b \<in> set (kids cs a)" "in_block (path (cs ! b)) (path x)"
    by (auto simp: kids_def)
  with x(1) show "x \<in> (\<Union>b\<in>set (kids cs a). {x \<in> set cs. in_block (path (cs ! b)) (path x)})"
    by blast
qed

lemma roots_blocks_set:
  assumes "wf_paths cs"
  shows "(\<Union>r\<in>set (roots cs). {x \<in> set cs. in_block (path (cs ! r)) (path x)}) = set cs"
proof (intro equalityI subsetI)
  fix x
  assume "x \<in> (\<Union>r\<in>set (roots cs). {x \<in> set cs. in_block (path (cs ! r)) (path x)})"
  then show "x \<in> set cs" by blast
next
  fix x
  assume x: "x \<in> set cs"
  from root_cover [OF assms x] obtain q where q: "q \<in> set cs" "parent_id q = None"
    "in_block (path q) (path x)" by blast
  from q(1) obtain r where "r < length cs" "cs ! r = q" by (auto simp: in_set_conv_nth)
  with q have "r \<in> set (roots cs)" "in_block (path (cs ! r)) (path x)"
    by (auto simp: roots_def)
  with x show "x \<in> (\<Union>r\<in>set (roots cs). {x \<in> set cs. in_block (path (cs ! r)) (path x)})"
    by blast
qed

lemma strict_sorted_paths_unique:
  assumes "sorted_wrt (\<lambda>x y. path x < path y) xs"
    and "sorted_wrt (\<lambda>x y. path x < path y) ys" and "set xs = set ys"
  shows "xs = ys"
proof -
  from assms(1) have xs: "sorted (map path xs)" "distinct (map path xs)"
    using strict_sorted_iff [of "map path xs"] by (simp_all add: sorted_wrt_map)
  from assms(2) have ys: "sorted (map path ys)" "distinct (map path ys)"
    using strict_sorted_iff [of "map path ys"] by (simp_all add: sorted_wrt_map)
  from xs(2) assms(3) have "inj_on path (set xs \<union> set ys)"
    by (simp add: distinct_map)
  from map_sorted_distinct_set_unique [OF this xs ys assms(3)] show ?thesis .
qed

lemma readout_block:
  assumes "wf_paths cs" and "distinct (map comment_id cs)"
    and "sorted_wrt (\<lambda>x y. path x < path y) cs"
  shows "a < length cs \<Longrightarrow> length cs - a \<le> fuel \<Longrightarrow>
    \<exists>t. readout fuel (built_heap cs) a = Some t \<and>
        sorted_wrt (\<lambda>x y. path x < path y) (flatten t) \<and>
        set (flatten t) = {x \<in> set cs. in_block (path (cs ! a)) (path x)}"
proof (induction fuel arbitrary: a)
  case 0
  then show ?case by simp
next
  case (Suc fuel)
  let ?h = "built_heap cs"
  let ?blk = "\<lambda>b. {x \<in> set cs. in_block (path (cs ! b)) (path x)}"
  define T where "T = (\<lambda>b. the (readout fuel ?h b))"
  have kid: "readout fuel ?h b = Some (T b) \<and>
        sorted_wrt (\<lambda>x y. path x < path y) (flatten (T b)) \<and>
        set (flatten (T b)) = ?blk b" if "b \<in> set (kids cs a)" for b
  proof -
    from kid_facts [OF assms Suc.prems(1) that] have "b < length cs" "a < b" by blast+
    with Suc.prems(2) have "length cs - b \<le> fuel" by simp
    from Suc.IH [OF \<open>b < length cs\<close> this] obtain t where
      t: "readout fuel ?h b = Some t" "sorted_wrt (\<lambda>x y. path x < path y) (flatten t)"
        "set (flatten t) = ?blk b" by blast
    from t(1) have "T b = t" by (simp add: T_def)
    with t show ?thesis by simp
  qed
  then have "those (map (readout fuel ?h) (kids cs a)) = Some (map T (kids cs a))"
    by (intro those_map_Some) simp
  then have out: "readout (Suc fuel) ?h a = Some (Node (cs ! a) (map T (kids cs a)))"
    using Suc.prems(1) by (simp add: length_built_heap built_heap_nth)
  have flat: "flatten (Node (cs ! a) (map T (kids cs a))) =
      cs ! a # concat (map (\<lambda>b. flatten (T b)) (kids cs a))"
    by (simp add: comp_def)
  have mem: "cs ! a \<in> set cs" using Suc.prems(1) by simp
  have inj: "inj_on path (set cs)"
    using sorted_paths_distinct [OF assms(3)] by (simp add: distinct_map)
  have rest: "set (concat (map (\<lambda>b. flatten (T b)) (kids cs a))) =
      {x \<in> set cs. prefix (path (cs ! a) @ ''.'') (path x)}"
  proof -
    have "set (concat (map (\<lambda>b. flatten (T b)) (kids cs a))) =
        (\<Union>b\<in>set (kids cs a). set (flatten (T b)))" by simp
    also have "\<dots> = (\<Union>b\<in>set (kids cs a). ?blk b)"
      using kid by (intro SUP_cong refl) blast
    finally show ?thesis by (simp only: kids_blocks_set [OF assms Suc.prems(1)])
  qed
  have "sorted_wrt (\<lambda>x y. path x < path y) (concat (map (\<lambda>b. flatten (T b)) (kids cs a)))"
  proof (rule sorted_wrt_concat_map)
    show "\<forall>b\<in>set (kids cs a). sorted_wrt (\<lambda>x y. path x < path y) (flatten (T b))"
      using kid by blast
    from kids_sorted [of cs a] show "sorted_wrt (\<lambda>b b'. \<forall>x\<in>set (flatten (T b)). \<forall>y\<in>set (flatten (T b')).
          path x < path y) (kids cs a)"
    proof (rule sorted_wrt_mono_rel [rotated])
      fix b b'
      assume "b \<in> set (kids cs a)" "b' \<in> set (kids cs a)" and "b < b'"
      show "\<forall>x\<in>set (flatten (T b)). \<forall>y\<in>set (flatten (T b')). path x < path y"
      proof (intro ballI)
        fix x y
        assume "x \<in> set (flatten (T b))" and "y \<in> set (flatten (T b'))"
        with kid [OF \<open>b \<in> set (kids cs a)\<close>] kid [OF \<open>b' \<in> set (kids cs a)\<close>]
        have "in_block (path (cs ! b)) (path x)" and "in_block (path (cs ! b')) (path y)"
          by simp_all
        with \<open>b \<in> set (kids cs a)\<close> \<open>b' \<in> set (kids cs a)\<close> \<open>b < b'\<close>
        show "path x < path y"
          by (intro sibling_blocks [OF assms Suc.prems(1)])
      qed
    qed
  qed
  moreover have "\<forall>y\<in>set (concat (map (\<lambda>b. flatten (T b)) (kids cs a))).
      path (cs ! a) < path y"
    unfolding rest by (auto simp: prefix_def less_append_Cons)
  ultimately have "sorted_wrt (\<lambda>x y. path x < path y)
      (flatten (Node (cs ! a) (map T (kids cs a))))"
    unfolding flat by simp
  moreover have "set (flatten (Node (cs ! a) (map T (kids cs a)))) =
      {x \<in> set cs. in_block (path (cs ! a)) (path x)}"
  proof -
    have "{x \<in> set cs. in_block (path (cs ! a)) (path x)} =
        insert (cs ! a) {x \<in> set cs. prefix (path (cs ! a) @ ''.'') (path x)}"
    proof (intro set_eqI iffI)
      fix x
      assume "x \<in> {x \<in> set cs. in_block (path (cs ! a)) (path x)}"
      then have x: "x \<in> set cs"
        "path x = path (cs ! a) \<or> prefix (path (cs ! a) @ ''.'') (path x)"
        by (simp_all add: in_block_def)
      from x(2) show "x \<in> insert (cs ! a) {x \<in> set cs. prefix (path (cs ! a) @ ''.'') (path x)}"
      proof
        assume "path x = path (cs ! a)"
        with inj x(1) mem have "x = cs ! a" by (auto dest: inj_onD)
        then show ?thesis by simp
      next
        assume "prefix (path (cs ! a) @ ''.'') (path x)"
        with x(1) show ?thesis by simp
      qed
    next
      fix x
      assume "x \<in> insert (cs ! a) {x \<in> set cs. prefix (path (cs ! a) @ ''.'') (path x)}"
      then show "x \<in> {x \<in> set cs. in_block (path (cs ! a)) (path x)}"
        using mem by (auto simp: in_block_def)
    qed
    then show ?thesis unfolding flat using rest by simp
  qed
  ultimately show ?case using out by blast
qed

lemma parents_before_sorted:
  assumes "wf_paths cs" and "sorted_wrt (\<lambda>x y. path x < path y) cs"
  shows "parents_before cs"
  unfolding parents_before_def
proof (intro allI impI)
  fix b p
  assume b: "b < length cs" and p: "parent_id (cs ! b) = Some p"
  from b have "cs ! b \<in> set cs" by simp
  with assms(1) show "\<exists>a<b. comment_id (cs ! a) = p"
  proof (cases rule: wf_cases)
    case root
    with p show ?thesis by simp
  next
    case (reply q seg)
    from reply(1) obtain a where a: "a < length cs" "cs ! a = q"
      by (auto simp: in_set_conv_nth)
    have "path (cs ! a) < path (cs ! b)"
      using reply(3) a(2) by (simp add: less_append_Cons)
    from sorted_paths_index [OF assms(2) a(1) b this] a(2) reply(2) p
    show ?thesis by auto
  qed
qed

text \<open>
  Claim C5. For the comments of one post (distinct ids; every root's path one segment,
  every reply's path its parent's path, a dot and one segment, the parent among the
  comments; distinct paths) sorted ascending by path, the tree build returns a forest
  whose pre-order flattening is the input sequence; and on the empty sequence it
  returns the empty forest.
\<close>

theorem get_comments_preorder:
  assumes "distinct (map comment_id comments)" and "wf_paths comments"
    and "sorted (map path comments)" and "distinct (map path comments)"
  shows "(\<exists>forest. get_comments comments = Inr forest \<and> flatten_forest forest = comments) \<and>
    get_comments [] = Inr []"
proof -
  have empty: "get_comments [] = Inr []"
    by (simp add: get_comments_def initial_state_def)
  have strict: "sorted_wrt (\<lambda>x y. path x < path y) comments"
    using assms(3,4) strict_sorted_iff [of "map path comments"] by (simp add: sorted_wrt_map)
  note assms = assms(1,2) strict
  let ?h = "built_heap comments"
  let ?n = "length comments"
  define T where "T = (\<lambda>r. the (readout (Suc ?n) ?h r))"
  from loop_built [OF assms(1) parents_before_sorted [OF assms(2,3)]]
  obtain s where s: "loop initial_state comments = Inr s" "built s comments" by blast
  then have hs: "heap s = ?h" "root_comments s = roots comments"
    by (simp_all add: built_def)
  have root: "readout (Suc ?n) ?h r = Some (T r) \<and>
        sorted_wrt (\<lambda>x y. path x < path y) (flatten (T r)) \<and>
        set (flatten (T r)) = {x \<in> set comments. in_block (path (comments ! r)) (path x)}"
    if "r \<in> set (roots comments)" for r
  proof -
    from that have "r < ?n" by (simp add: roots_def)
    moreover have "?n - r \<le> Suc ?n" by simp
    ultimately obtain t where
      t: "readout (Suc ?n) ?h r = Some t" "sorted_wrt (\<lambda>x y. path x < path y) (flatten t)"
        "set (flatten t) = {x \<in> set comments. in_block (path (comments ! r)) (path x)}"
      using readout_block [OF assms(2,1,3), of r "Suc ?n"] by blast
    from t(1) have "T r = t" by (simp add: T_def)
    with t show ?thesis by simp
  qed
  then have "those (map (readout (Suc ?n) ?h) (roots comments)) = Some (map T (roots comments))"
    by (intro those_map_Some) simp
  then have result: "get_comments comments = Inr (map T (roots comments))"
    by (simp add: get_comments_def s(1) hs length_built_heap)
  have flat: "flatten_forest (map T (roots comments)) =
      concat (map (\<lambda>r. flatten (T r)) (roots comments))"
    by (simp add: flatten_forest_def comp_def)
  have "set (flatten_forest (map T (roots comments))) = set comments"
  proof -
    have "set (flatten_forest (map T (roots comments))) =
        (\<Union>r\<in>set (roots comments). set (flatten (T r)))"
      unfolding flat by simp
    also have "\<dots> = (\<Union>r\<in>set (roots comments).
        {x \<in> set comments. in_block (path (comments ! r)) (path x)})"
      using root by (intro SUP_cong refl) blast
    finally show ?thesis by (simp only: roots_blocks_set [OF assms(2)])
  qed
  moreover have "sorted_wrt (\<lambda>x y. path x < path y) (flatten_forest (map T (roots comments)))"
    unfolding flat
  proof (rule sorted_wrt_concat_map)
    show "\<forall>r\<in>set (roots comments). sorted_wrt (\<lambda>x y. path x < path y) (flatten (T r))"
      using root by blast
    from roots_sorted [of comments] show "sorted_wrt (\<lambda>r r'. \<forall>x\<in>set (flatten (T r)). \<forall>y\<in>set (flatten (T r')).
          path x < path y) (roots comments)"
    proof (rule sorted_wrt_mono_rel [rotated])
      fix r r'
      assume "r \<in> set (roots comments)" "r' \<in> set (roots comments)" and "r < r'"
      show "\<forall>x\<in>set (flatten (T r)). \<forall>y\<in>set (flatten (T r')). path x < path y"
      proof (intro ballI)
        fix x y
        assume "x \<in> set (flatten (T r))" and "y \<in> set (flatten (T r'))"
        with root [OF \<open>r \<in> set (roots comments)\<close>] root [OF \<open>r' \<in> set (roots comments)\<close>]
        have "in_block (path (comments ! r)) (path x)"
          and "in_block (path (comments ! r')) (path y)"
          by simp_all
        with \<open>r \<in> set (roots comments)\<close> \<open>r' \<in> set (roots comments)\<close> \<open>r < r'\<close>
        show "path x < path y"
          by (intro root_blocks [OF assms(2,3)])
      qed
    qed
  qed
  ultimately have "flatten_forest (map T (roots comments)) = comments"
    using assms(3) by (intro strict_sorted_paths_unique)
  with result empty show ?thesis by blast
qed

theorem get_comments_preorder_witness:
  "distinct (map comment_id example_comments) \<and> wf_paths example_comments \<and>
   sorted (map path example_comments) \<and> distinct (map path example_comments) \<and>
   (\<exists>forest. get_comments example_comments = Inr forest \<and>
      flatten_forest forest = example_comments)"
proof -
  have a: "distinct (map comment_id example_comments)" by code_simp
  have b: "wf_paths example_comments" by code_simp
  have c: "sorted (map path example_comments)" by code_simp
  have d: "distinct (map path example_comments)" by code_simp
  from get_comments_preorder [OF a b c d] a b c d show ?thesis by blast
qed

subsection \<open>Stored paths\<close>






















subsection \<open>Path allocator\<close>

lemma max_segment_Max: "max_segment segs = Max (insert 0 (set segs))"
proof (induction segs)
  case Nil
  then show ?case by (simp add: max_segment_def)
next
  case (Cons x xs)
  have "Max (insert 0 (set (x # xs))) = max x (Max (insert 0 (set xs)))"
    by (cases "xs = []") simp_all
  with Cons show ?case by (simp add: max_segment_def)
qed

lemma max_segment_ge: "x \<in> set segs \<Longrightarrow> x \<le> max_segment segs"
  by (simp add: max_segment_Max)

text \<open>
  Claim C8. A new comment without a parent gets the single-segment path whose segment
  is one more than the maximum first segment the post's paths already use, 1 when
  there is none; a reply gets its parent's path with one more segment, one more than
  the maximum last segment among the parent's direct children, 1 when there are none;
  the depth is the length of the new path minus 1; and the new path is none of the
  existing ones.
\<close>

theorem allocated_path_and_depth:
  "fst (createComment existing None) =
     [Max (insert 0 {hd p | p. p \<in> set existing \<and> p \<noteq> []}) + 1] \<and>
   fst (createComment existing (Some pp)) =
     pp @ [Max (insert 0 {last p | p. p \<in> set existing \<and> p \<noteq> [] \<and> butlast p = pp}) + 1] \<and>
   ({hd p | p. p \<in> set existing \<and> p \<noteq> []} = {} \<longrightarrow> fst (createComment existing None) = [1]) \<and>
   ({last p | p. p \<in> set existing \<and> p \<noteq> [] \<and> butlast p = pp} = {} \<longrightarrow>
      fst (createComment existing (Some pp)) = pp @ [1]) \<and>
   snd (createComment existing parentPath) = length (fst (createComment existing parentPath)) - 1 \<and>
   fst (createComment existing parentPath) \<notin> set existing"
proof -
  have roots: "set (sibling_segments existing None) = {hd p | p. p \<in> set existing \<and> p \<noteq> []}"
    by (auto simp: sibling_segments_def)
  have kids: "set (sibling_segments existing (Some pp)) =
      {last p | p. p \<in> set existing \<and> p \<noteq> [] \<and> butlast p = pp}" for pp
    by (auto simp: sibling_segments_def)
  have r: "fst (createComment existing None) =
     [Max (insert 0 {hd p | p. p \<in> set existing \<and> p \<noteq> []}) + 1]"
    by (simp add: createComment_def allocate_def max_segment_Max roots)
  have k: "fst (createComment existing (Some pp)) =
     pp @ [Max (insert 0 {last p | p. p \<in> set existing \<and> p \<noteq> [] \<and> butlast p = pp}) + 1]"
    by (simp add: createComment_def allocate_def max_segment_Max kids)
  have d: "snd (createComment existing parentPath) =
      length (fst (createComment existing parentPath)) - 1"
    by (simp add: createComment_def Let_def)
  have fresh: "fst (createComment existing parentPath) \<notin> set existing"
  proof
    assume mem: "fst (createComment existing parentPath) \<in> set existing"
    show False
    proof (cases parentPath)
      case None
      let ?m = "max_segment (sibling_segments existing None)"
      from mem None have "[?m + 1] \<in> set existing"
        by (simp add: createComment_def allocate_def)
      then have "?m + 1 \<in> set (sibling_segments existing None)"
        by (force simp: sibling_segments_def)
      from max_segment_ge [OF this] show False by simp
    next
      case (Some pp)
      let ?m = "max_segment (sibling_segments existing (Some pp))"
      from mem Some have "pp @ [?m + 1] \<in> set existing"
        by (simp add: createComment_def allocate_def)
      then have "?m + 1 \<in> set (sibling_segments existing (Some pp))"
        by (force simp: sibling_segments_def)
      from max_segment_ge [OF this] show False by simp
    qed
  qed
  have r1: "{hd p | p. p \<in> set existing \<and> p \<noteq> []} = {} \<longrightarrow>
      fst (createComment existing None) = [1]"
  proof
    assume e: "{hd p | p. p \<in> set existing \<and> p \<noteq> []} = {}"
    from r show "fst (createComment existing None) = [1]" unfolding e by simp
  qed
  have k1: "{last p | p. p \<in> set existing \<and> p \<noteq> [] \<and> butlast p = pp} = {} \<longrightarrow>
      fst (createComment existing (Some pp)) = pp @ [1]"
  proof
    assume e: "{last p | p. p \<in> set existing \<and> p \<noteq> [] \<and> butlast p = pp} = {}"
    from k show "fst (createComment existing (Some pp)) = pp @ [1]" unfolding e by simp
  qed
  from r k r1 k1 d fresh show ?thesis by blast
qed

theorem allocated_path_and_depth_witness:
  "createComment example_paths None = ([3], 0) \<and>
   createComment example_paths (Some [1]) = ([1, 5], 1) \<and>
   createComment example_paths (Some [2]) = ([2, 1], 1) \<and>
   createComment [] None = ([1], 0)"
proof -
  have a: "createComment example_paths None = ([3], 0)" by code_simp
  have b: "createComment example_paths (Some [1]) = ([1, 5], 1)" by code_simp
  have c: "createComment example_paths (Some [2]) = ([2, 1], 1)" by code_simp
  have d: "createComment [] None = ([1], 0)" by code_simp
  from allocated_path_and_depth [of example_paths "[2]" None] a b c d show ?thesis by blast
qed

end
